theory Spec2Isabelle
  imports Main "HOL-Library.Multiset" "HOL-Library.Product_Lexorder" "HOL-Library.List_Lexorder"
begin

unbundle bit_operations_syntax

section \<open>The stylesheet tree\<close>

text \<open>
  The tree of \<^verbatim>\<open>./ast\<close> as \<^verbatim>\<open>compile.ts\<close> reads it: a node is a declaration
  (\<^verbatim>\<open>property\<close>, \<^verbatim>\<open>value\<close>, \<^verbatim>\<open>important\<close>, in this order) or a rule
  (\<^verbatim>\<open>selector\<close>, \<^verbatim>\<open>nodes\<close>). A rule has a type of its own, as \<^verbatim>\<open>Rule\<close> has in
  the TypeScript. In-place mutation of a node is modelled by returning the new node.
\<close>

datatype AstNode =
    Declaration string string bool
  | RuleNode Rule
and Rule = Rule (selector: string) (nodes: "AstNode list")

text \<open>
  Modelled from the spec: the constructors \<^verbatim>\<open>rule(selector, nodes)\<close> and
  \<^verbatim>\<open>decl(property, value)\<close> of \<^verbatim>\<open>./ast\<close>, which is not among the sources; a fresh
  declaration is not important.
\<close>

definition rule :: "string \<Rightarrow> AstNode list \<Rightarrow> Rule" where
  "rule sel ns = Rule sel ns"

definition decl :: "string \<Rightarrow> string \<Rightarrow> AstNode" where
  "decl p v = Declaration p v False"

subsection \<open>Addressing nodes\<close>

text \<open>
  Vocabulary for the statements below, not part of the program: a path is the list of
  child indices leading from a forest to one of its nodes; \<open>node_at\<close> reads the node at a
  path, and \<open>below_at_root\<close> says that the path passes through a rule whose selector is
  \<^verbatim>\<open>@at-root\<close> before it ends (the rule is a proper ancestor of the node addressed).
\<close>

fun node_at :: "AstNode list \<Rightarrow> nat list \<Rightarrow> AstNode option" where
  "node_at ns [] = None"
| "node_at ns [i] = (if i < length ns then Some (ns ! i) else None)"
| "node_at ns (i # j # p) =
     (if i < length ns
      then (case ns ! i of RuleNode r \<Rightarrow> node_at (nodes r) (j # p) | Declaration _ _ _ \<Rightarrow> None)
      else None)"

fun below_at_root :: "AstNode list \<Rightarrow> nat list \<Rightarrow> bool" where
  "below_at_root ns [] = False"
| "below_at_root ns [i] = False"
| "below_at_root ns (i # j # p) =
     (i < length ns \<and>
      (case ns ! i of
         RuleNode r \<Rightarrow> selector r = ''@at-root'' \<or> below_at_root (nodes r) (j # p)
       | Declaration _ _ _ \<Rightarrow> False))"

section \<open>Importance annotation\<close>

text \<open>
  \<^verbatim>\<open>applyImportant(ast)\<close>, lines 241-255: a rule whose selector is \<^verbatim>\<open>@at-root\<close> is
  passed over, a declaration is marked, any other rule is entered.
\<close>

fun applyImportant :: "AstNode list \<Rightarrow> AstNode list" where
  "applyImportant [] = []"
| "applyImportant (RuleNode (Rule s cs) # ast) =
     (if s = ''@at-root'' then RuleNode (Rule s cs)
      else RuleNode (Rule s (applyImportant cs))) # applyImportant ast"
| "applyImportant (Declaration p v i # ast) = Declaration p v True # applyImportant ast"

section \<open>Variants and their application\<close>

text \<open>
  What the program can raise: the \<^verbatim>\<open>TypeError\<close> of line 158, where \<^verbatim>\<open>applyFn\<close> is read
  off \<^verbatim>\<open>variants.get(variant.root)\<close> and the root is not registered, and a fault of the
  colour resolver \<^verbatim>\<open>asColor\<close>, called on line 218 with nothing to catch it. A function
  that can raise returns \<open>Inl\<close> of the error, or \<open>Inr\<close> of its result. The other
  collaborators are taken to return.
\<close>

datatype error = TypeError | ResolverFault

text \<open>
  A variant is \<^verbatim>\<open>arbitrary\<close> (it carries a selector), \<^verbatim>\<open>compound\<close> (a root and the
  variant it wraps) or any other kind, of which \<^verbatim>\<open>applyVariant\<close> reads the root only.
  The registry \<^verbatim>\<open>designSystem.variants\<close> is a parameter: \<open>get_applyFn root\<close> is the
  \<^verbatim>\<open>applyFn\<close> of \<^verbatim>\<open>variants.get(root)\<close>, or \<open>None\<close> when \<^verbatim>\<open>variants.get(root)\<close> is
  \<^verbatim>\<open>undefined\<close>, and \<open>variant_compare\<close> is \<^verbatim>\<open>variants.compare\<close>. An \<^verbatim>\<open>applyFn\<close>
  mutates the rule it is given and returns \<^verbatim>\<open>null\<close> when the variant does not apply:
  here it returns the mutated rule, or \<open>None\<close>.
\<close>

datatype Variant = Arbitrary string | Compound string Variant | Static string

type_synonym ApplyFn = "Rule \<Rightarrow> Variant \<Rightarrow> Rule option"

record Variants =
  get_applyFn :: "string \<Rightarrow> ApplyFn option"
  variant_compare :: "Variant \<Rightarrow> Variant \<Rightarrow> int"

text \<open>
  The loop of lines 179-191 over the children of the placeholder: a child that is not a
  rule ends the application with \<^verbatim>\<open>null\<close>, and so does a child the compound's own
  \<^verbatim>\<open>applyFn\<close> rejects.
\<close>

fun apply_to_children :: "ApplyFn \<Rightarrow> Variant \<Rightarrow> AstNode list \<Rightarrow> AstNode list option" where
  "apply_to_children applyFn variant [] = Some []"
| "apply_to_children applyFn variant (Declaration p v i # rest) = None"
| "apply_to_children applyFn variant (RuleNode child # rest) =
     (case applyFn child variant of
        None \<Rightarrow> None
      | Some child' \<Rightarrow>
          (case apply_to_children applyFn variant rest of
             None \<Rightarrow> None
           | Some rest' \<Rightarrow> Some (RuleNode child' # rest')))"

text \<open>
  Modelled from the spec: \<^verbatim>\<open>walk\<close> and \<^verbatim>\<open>WalkAction\<close> of \<^verbatim>\<open>./ast\<close>, which is not
  among the sources. \<open>walk_slot\<close> is the call of lines 195-200 with its callback written
  in: the forest is visited in document order, parent before children; a rule without
  children receives \<open>node_nodes\<close> (the children of the original rule) and, the callback
  answering \<^verbatim>\<open>WalkAction.Skip\<close>, is not entered; any other rule is entered; the
  traversal then goes on with the next sibling.
\<close>

fun walk_slot :: "AstNode list \<Rightarrow> AstNode list \<Rightarrow> AstNode list" where
  "walk_slot node_nodes [] = []"
| "walk_slot node_nodes (Declaration p v i # ast) =
     Declaration p v i # walk_slot node_nodes ast"
| "walk_slot node_nodes (RuleNode (Rule s cs) # ast) =
     (if length cs \<le> 0 then RuleNode (Rule s node_nodes) # walk_slot node_nodes ast
      else RuleNode (Rule s (walk_slot node_nodes cs)) # walk_slot node_nodes ast)"

text \<open>
  \<^verbatim>\<open>applyVariant(node, variant, variants)\<close>, lines 148-209: \<open>Inr None\<close> is \<^verbatim>\<open>null\<close>,
  \<open>Inr (Some node')\<close> is the return without a value, \<open>node'\<close> being the rule as the call
  left it, and \<open>Inl\<close> is a raise. Line 158 comes after the arbitrary case and before the
  other two.
\<close>

fun applyVariant :: "Rule \<Rightarrow> Variant \<Rightarrow> Variants \<Rightarrow> error + Rule option" where
  "applyVariant node (Arbitrary sel) variants =
     Inr (Some (Rule (selector node) [RuleNode (rule sel (nodes node))]))"
| "applyVariant node (Compound root inner) variants =
     (case get_applyFn variants root of
        None \<Rightarrow> Inl TypeError
      | Some applyFn \<Rightarrow>
          (case applyVariant (rule ''@slot'' []) inner variants of
             Inl e \<Rightarrow> Inl e
           | Inr None \<Rightarrow> Inr None
           | Inr (Some isolatedNode) \<Rightarrow>
               (case apply_to_children applyFn (Compound root inner) (nodes isolatedNode) of
                  None \<Rightarrow> Inr None
                | Some children \<Rightarrow>
                    Inr (Some (Rule (selector node) (walk_slot (nodes node) children))))))"
| "applyVariant node (Static root) variants =
     (case get_applyFn variants root of
        None \<Rightarrow> Inl TypeError
      | Some applyFn \<Rightarrow> Inr (applyFn node (Static root)))"

text \<open>
  Vocabulary for the statements: whether a node is a rule, and the path of the first
  rule without children met in document order (parent before children, a rule's subtree
  before its next sibling).
\<close>

fun is_rule :: "AstNode \<Rightarrow> bool" where
  "is_rule (RuleNode r) = True"
| "is_rule (Declaration p v i) = False"

fun next_sibling :: "nat list \<Rightarrow> nat list" where
  "next_sibling [] = []"
| "next_sibling (i # p) = Suc i # p"

fun first_slot :: "AstNode list \<Rightarrow> nat list option" where
  "first_slot [] = None"
| "first_slot (Declaration p v i # ast) = map_option next_sibling (first_slot ast)"
| "first_slot (RuleNode (Rule s cs) # ast) =
     (if cs = [] then Some [0]
      else (case first_slot cs of
              Some p \<Rightarrow> Some (0 # p)
            | None \<Rightarrow> map_option next_sibling (first_slot ast)))"

text \<open>
  Document order on paths: \<open>doc_le p q\<close> when \<open>p\<close> is \<open>q\<close>, an ancestor of \<open>q\<close>, or
  stands before \<open>q\<close> in the traversal.
\<close>

fun doc_le :: "nat list \<Rightarrow> nat list \<Rightarrow> bool" where
  "doc_le [] q = True"
| "doc_le (i # p) [] = False"
| "doc_le (i # p) (j # q) = (i < j \<or> (i = j \<and> doc_le p q))"

section \<open>Property sort key\<close>

text \<open>
  \<^verbatim>\<open>Array.prototype.indexOf\<close>: the first position of the element, \<open>-1\<close> when it does not
  occur.
\<close>

fun indexOf :: "'a list \<Rightarrow> 'a \<Rightarrow> int" where
  "indexOf [] x = - 1"
| "indexOf (y # ys) x =
     (if y = x then 0 else (let i = indexOf ys x in if i = - 1 then - 1 else i + 1))"

text \<open>
  A JavaScript \<^verbatim>\<open>Map\<close> as the list of its entries in insertion order: \<^verbatim>\<open>set\<close> on a key
  that is present replaces the value where the entry stands, and appends otherwise;
  \<^verbatim>\<open>get\<close> is \<open>map_of\<close>.
\<close>

fun map_set :: "('k \<times> 'v) list \<Rightarrow> 'k \<Rightarrow> 'v \<Rightarrow> ('k \<times> 'v) list" where
  "map_set [] k v = [(k, v)]"
| "map_set ((k', v') # m) k v =
     (if k' = k then (k', v) # m else (k', v') # map_set m k v)"

text \<open>\<^verbatim>\<open>propertySort.set(idx, (propertySort.get(idx) ?? 0) + 1)\<close>.\<close>

definition count_index :: "(int \<times> int) list \<Rightarrow> int \<Rightarrow> (int \<times> int) list" where
  "count_index propertySort idx =
     map_set propertySort idx ((case map_of propertySort idx of None \<Rightarrow> 0 | Some c \<Rightarrow> c) + 1)"

text \<open>
  The queue loop of lines 262-286, with the table \<^verbatim>\<open>GLOBAL_PROPERTY_ORDER\<close> as the
  parameter \<open>order\<close>: the arguments are the queue \<^verbatim>\<open>q\<close> and the map \<^verbatim>\<open>propertySort\<close>.
\<close>

function property_queue ::
  "string list \<Rightarrow> AstNode list \<Rightarrow> (int \<times> int) list \<Rightarrow> (int \<times> int) list" where
  "property_queue order [] propertySort = propertySort"
| "property_queue order (Declaration p v i # q) propertySort =
     (if p = ''--tw-sort'' \<and> indexOf order v \<noteq> - 1
      then count_index propertySort (indexOf order v)
      else if indexOf order p \<noteq> - 1
      then property_queue order q (count_index propertySort (indexOf order p))
      else property_queue order q propertySort)"
| "property_queue order (RuleNode (Rule s cs) # q) propertySort =
     (if s = ''@at-root'' then property_queue order q propertySort
      else property_queue order (q @ cs) propertySort)"
  by pat_completeness auto
termination
  by (relation "measure (\<lambda>(order, q, propertySort). size_list size q)") auto

text \<open>
  \<^verbatim>\<open>getPropertySort(nodes)\<close>, lines 257-294. The entries are sorted by key, ascending;
  the keys of a map are distinct, so the sort's result does not depend on the algorithm.
\<close>

definition getPropertySort :: "string list \<Rightarrow> AstNode list \<Rightarrow> int list \<times> int list" where
  "getPropertySort order forest =
     (let entries = sort_key fst (property_queue order forest [])
      in (map fst entries, map snd entries))"

text \<open>
  Vocabulary for the statements: a node that ends the queue loop, that is, a declaration
  of \<^verbatim>\<open>--tw-sort\<close> whose value is in the table.
\<close>

fun sort_override :: "string list \<Rightarrow> AstNode \<Rightarrow> bool" where
  "sort_override order (Declaration p v i) = (p = ''--tw-sort'' \<and> indexOf order v \<noteq> - 1)"
| "sort_override order (RuleNode r) = False"

section \<open>Compiling one candidate\<close>

text \<open>
  The collaborators that \<^verbatim>\<open>compile.ts\<close> imports and whose code is not among the sources
  are parameters. A candidate is an object: \<open>ident\<close> stands for its identity, the key of
  the \<^verbatim>\<open>Map\<close> of \<^verbatim>\<open>compileCandidates\<close>, and is no field of the TypeScript type;
  \<open>cvalue\<close> is \<^verbatim>\<open>candidate.value\<close>. A \<^verbatim>\<open>compileFn\<close> answers \<^verbatim>\<open>null\<close>, \<^verbatim>\<open>undefined\<close>
  or a list of nodes, the three cases lines 233-235 tell apart (a list, also the empty
  one, is truthy). \<^verbatim>\<open>asColor\<close> answers a text or \<^verbatim>\<open>null\<close>, or raises.
\<close>

record Candidate =
  ident :: nat
  kind :: string
  root :: string
  property :: string
  cvalue :: string
  modifier :: "string option"
  important :: bool
  variants :: "Variant list"

datatype CompiledNodes = Null | Undefined | Nodes "AstNode list"

record Utility =
  ukind :: string
  compileFn :: "Candidate \<Rightarrow> CompiledNodes"

type_synonym Theme = "string \<Rightarrow> string option"

record DesignSystem =
  parseCandidate :: "string \<Rightarrow> Candidate option"
  getUsedVariants :: "Variant list"
  variants_registry :: Variants
  utilities_get :: "string \<Rightarrow> Utility list option"
  theme :: Theme

record Imports =
  GLOBAL_PROPERTY_ORDER :: "string list"
  asColor :: "string \<Rightarrow> string \<Rightarrow> Theme \<Rightarrow> error + string option"
  compare :: "string \<Rightarrow> string \<Rightarrow> int"
  escape :: "string \<Rightarrow> string"

text \<open>
  The loop of lines 228-236, on the registered utilities from the last to the first
  (the caller passes the list reversed).
\<close>

fun try_utilities :: "Candidate \<Rightarrow> Utility list \<Rightarrow> CompiledNodes" where
  "try_utilities candidate [] = Null"
| "try_utilities candidate (utility # earlier) =
     (if kind candidate \<noteq> ukind utility then try_utilities candidate earlier
      else (case compileFn utility candidate of
              Null \<Rightarrow> Null
            | Nodes compiledNodes \<Rightarrow> Nodes compiledNodes
            | Undefined \<Rightarrow> try_utilities candidate earlier))"

text \<open>
  \<^verbatim>\<open>compileBaseUtility(candidate, designSystem)\<close>, lines 211-239. The inner \<open>case\<close> is
  the variable \<^verbatim>\<open>value\<close> after line 219; the test of line 217 is one of truthiness, so
  that a modifier that is \<^verbatim>\<open>null\<close> or the empty text is passed over.
\<close>

definition compileBaseUtility ::
  "Imports \<Rightarrow> Candidate \<Rightarrow> DesignSystem \<Rightarrow> error + CompiledNodes" where
  "compileBaseUtility imp candidate designSystem =
     (if kind candidate = ''arbitrary''
      then (case (case modifier candidate of
                    None \<Rightarrow> Inr (Some (cvalue candidate))
                  | Some m \<Rightarrow>
                      if m = [] then Inr (Some (cvalue candidate))
                      else asColor imp (cvalue candidate) m (theme designSystem)) of
              Inl e \<Rightarrow> Inl e
            | Inr None \<Rightarrow> Inr Undefined
            | Inr (Some v) \<Rightarrow> Inr (Nodes [decl (property candidate) v]))
      else Inr (try_utilities candidate
                  (rev (case utilities_get designSystem (root candidate) of
                          None \<Rightarrow> []
                        | Some utilities \<Rightarrow> utilities))))"

text \<open>
  The loop of lines 133-140: the first variant that does not apply ends it, and so does
  one that raises.
\<close>

fun apply_variants :: "Rule \<Rightarrow> Variant list \<Rightarrow> Variants \<Rightarrow> error + Rule option" where
  "apply_variants node [] registry = Inr (Some node)"
| "apply_variants node (variant # rest) registry =
     (case applyVariant node variant registry of
        Inl e \<Rightarrow> Inl e
      | Inr None \<Rightarrow> Inr None
      | Inr (Some node') \<Rightarrow> apply_variants node' rest registry)"

text \<open>
  \<^verbatim>\<open>compileAstNodes(rawCandidate, designSystem)\<close>, lines 113-146: the result is the
  rule and its property sort key, or \<open>Inr None\<close> for \<^verbatim>\<open>null\<close>, or a raise.
\<close>

definition compileAstNodes ::
  "Imports \<Rightarrow> string \<Rightarrow> DesignSystem \<Rightarrow> error + (Rule \<times> (int list \<times> int list)) option" where
  "compileAstNodes imp rawCandidate designSystem =
     (case parseCandidate designSystem rawCandidate of
        None \<Rightarrow> Inr None
      | Some candidate \<Rightarrow>
          (case compileBaseUtility imp candidate designSystem of
             Inl e \<Rightarrow> Inl e
           | Inr Null \<Rightarrow> Inr None
           | Inr Undefined \<Rightarrow> Inr None
           | Inr (Nodes ns) \<Rightarrow>
               (let propertySort = getPropertySort (GLOBAL_PROPERTY_ORDER imp) ns;
                    ns' = (if important candidate then applyImportant ns else ns);
                    node = Rule (CHR ''.'' # escape imp rawCandidate) ns'
                in (case apply_variants node (variants candidate) (variants_registry designSystem) of
                      Inl e \<Rightarrow> Inl e
                    | Inr None \<Rightarrow> Inr None
                    | Inr (Some node') \<Rightarrow> Inr (Some (node', propertySort))))))"

section \<open>Ordering the compiled nodes\<close>

text \<open>The entry of \<^verbatim>\<open>nodeSorting\<close> for a node; \<open>variants_order\<close> is its field \<^verbatim>\<open>variants\<close>.\<close>

record NodeSorting =
  properties :: "int list \<times> int list"
  variants_order :: int
  candidate :: string

text \<open>\<^verbatim>\<open>xs[i]\<close>: \<^verbatim>\<open>undefined\<close> (here \<open>None\<close>) out of range.\<close>

definition at_index :: "'a list \<Rightarrow> nat \<Rightarrow> 'a option" where
  "at_index xs i = (if i < length xs then Some (xs ! i) else None)"

text \<open>
  The \<^verbatim>\<open>while\<close> loop of lines 80-87, started by the comparator with \<open>offset = 0\<close>. As a
  function of any \<open>offset\<close> it need not return (past the end of both lists the two reads
  are \<^verbatim>\<open>undefined\<close> and equal), so that not returning is the value \<open>None\<close>.
\<close>

partial_function (option) property_offset :: "int list \<Rightarrow> int list \<Rightarrow> nat \<Rightarrow> nat option" where
  "property_offset aProperties zProperties offset =
     (if length aProperties < offset \<and> length zProperties < offset \<and>
         at_index aProperties offset = at_index zProperties offset
      then property_offset aProperties zProperties (offset + 1)
      else Some offset)"

declare property_offset.simps [code]

text \<open>
  A comparator's result is a JavaScript number of which the sort reads the sign only
  (\<^verbatim>\<open>NaN\<close> counting as zero); the model keeps an integer of that sign.
  \<open>Number_of_bigint\<close> is \<^verbatim>\<open>Number(d)\<close> for a BigInt \<open>d\<close>: a float of the sign of \<open>d\<close>, zero
  only for \<open>0n\<close>. \<open>infinity_delta a z\<close> is \<^verbatim>\<open>(a ?? Infinity) - (z ?? Infinity)\<close>: the
  difference of two indices, \<^verbatim>\<open>-Infinity\<close>, \<^verbatim>\<open>Infinity\<close>, or \<^verbatim>\<open>NaN\<close>, which is falsy as
  zero is.
\<close>

definition Number_of_bigint :: "int \<Rightarrow> int" where
  "Number_of_bigint d = sgn d"

fun infinity_delta :: "int option \<Rightarrow> int option \<Rightarrow> int" where
  "infinity_delta (Some a) (Some z) = a - z"
| "infinity_delta (Some a) None = - 1"
| "infinity_delta None (Some z) = 1"
| "infinity_delta None None = 0"

text \<open>
  The loop of lines 98-101 over \<open>i = 0, ..., aProperties.length - 1\<close>: the first
  non-zero \<^verbatim>\<open>zCounts[i] - aCounts[i]\<close> is returned; a read out of range makes the
  difference \<^verbatim>\<open>NaN\<close>, which is skipped; \<open>None\<close> when the loop ends without returning.
\<close>

fun count_delta :: "int list \<Rightarrow> int list \<Rightarrow> nat list \<Rightarrow> int option" where
  "count_delta aCounts zCounts [] = None"
| "count_delta aCounts zCounts (i # rest) =
     (case (at_index zCounts i, at_index aCounts i) of
        (Some z, Some a) \<Rightarrow>
          if z - a \<noteq> 0 then Some (z - a) else count_delta aCounts zCounts rest
      | _ \<Rightarrow> count_delta aCounts zCounts rest)"

text \<open>The comparator of lines 63-105; \<open>None\<close> when it does not return.\<close>

definition sort_comparator :: "Imports \<Rightarrow> NodeSorting \<Rightarrow> NodeSorting \<Rightarrow> int option" where
  "sort_comparator imp aSorting zSorting =
     (let aProperties = fst (properties aSorting); aCounts = snd (properties aSorting);
          zProperties = fst (properties zSorting); zCounts = snd (properties zSorting)
      in if variants_order aSorting - variants_order zSorting \<noteq> 0
         then Some (Number_of_bigint (variants_order aSorting - variants_order zSorting))
         else (case property_offset aProperties zProperties 0 of
                 None \<Rightarrow> None
               | Some offset \<Rightarrow>
                   (let lowestPropertyDelta =
                          infinity_delta (at_index aProperties offset) (at_index zProperties offset)
                    in if lowestPropertyDelta \<noteq> 0 then Some lowestPropertyDelta
                       else (let uniquePropertyDelta =
                                   int (length zProperties) - int (length aProperties)
                             in if uniquePropertyDelta \<noteq> 0 then Some uniquePropertyDelta
                                else (case count_delta aCounts zCounts [0..<length aProperties] of
                                        Some delta \<Rightarrow> Some delta
                                      | None \<Rightarrow>
                                          Some (compare imp (candidate aSorting)
                                                  (candidate zSorting)))))))"

text \<open>
  \<^verbatim>\<open>Array.prototype.sort(comparator)\<close>: the language fixes that the sort is stable and
  that, for a comparator that orders consistently, the result is the sorted order; the
  algorithm is the engine's. Insertion sort stands for it: an element goes before the
  first later element it does not compare greater than. A comparison that does not
  return makes the sort not return.
\<close>

fun insert_sorted :: "('a \<Rightarrow> 'a \<Rightarrow> int option) \<Rightarrow> 'a \<Rightarrow> 'a list \<Rightarrow> 'a list option" where
  "insert_sorted cmp x [] = Some [x]"
| "insert_sorted cmp x (y # ys) =
     (case cmp x y of
        None \<Rightarrow> None
      | Some d \<Rightarrow>
          if d \<le> 0 then Some (x # y # ys)
          else (case insert_sorted cmp x ys of None \<Rightarrow> None | Some zs \<Rightarrow> Some (y # zs)))"

fun array_sort :: "('a \<Rightarrow> 'a \<Rightarrow> int option) \<Rightarrow> 'a list \<Rightarrow> 'a list option" where
  "array_sort cmp [] = Some []"
| "array_sort cmp (x # xs) =
     (case array_sort cmp xs of None \<Rightarrow> None | Some ys \<Rightarrow> insert_sorted cmp x ys)"

section \<open>Compiling a batch\<close>

text \<open>
  \<^verbatim>\<open>x << n\<close> on BigInts: a left shift by \<open>n\<close> bits, and for a negative \<open>n\<close> a right shift
  by \<open>-n\<close> bits.
\<close>

definition bigint_shift_left :: "int \<Rightarrow> int \<Rightarrow> int" where
  "bigint_shift_left x n = (if 0 \<le> n then push_bit (nat n) x else drop_bit (nat (- n)) x)"

text \<open>
  The loop of lines 50-53 over \<^verbatim>\<open>candidate.variants\<close>. \<^verbatim>\<open>indexOf\<close> compares
  variant objects by identity; a variant is modelled by its content, so that two variants
  of the same content count as one object.
\<close>

definition variantOrder :: "Variant list \<Rightarrow> Variant list \<Rightarrow> int" where
  "variantOrder sorted_variants candidate_variants =
     fold (\<lambda>variant order. order OR bigint_shift_left 1 (indexOf sorted_variants variant))
       candidate_variants 0"







section \<open>Vocabulary of the statements about the property sort key\<close>

text \<open>
  None of these is part of the program. Breadth-first order, said without a queue: the
  nodes of a forest a level at a time, the top level first, then the children of the
  rules of that level, the children of a rule \<^verbatim>\<open>@at-root\<close> left out, and so on.
\<close>

fun visible_children :: "AstNode \<Rightarrow> AstNode list" where
  "visible_children (Declaration p v i) = []"
| "visible_children (RuleNode (Rule s cs)) = (if s = ''@at-root'' then [] else cs)"

function level_order :: "AstNode list \<Rightarrow> AstNode list" where
  "level_order ns =
     (if ns = [] then [] else ns @ level_order (concat (map visible_children ns)))"
  by auto
termination
proof (relation "measure (size_list size)")
  show "wf (measure (size_list size))" by simp
next
  fix ns :: "AstNode list"
  assume ne: "ns \<noteq> []"
  have one: "size_list size (visible_children n) < Suc (size n)" for n
  proof (cases n)
    case (Declaration p v i)
    then show ?thesis by simp
  next
    case (RuleNode r)
    then show ?thesis by (cases r) simp
  qed
  have "ms \<noteq> [] \<Longrightarrow> size_list size (concat (map visible_children ms)) < size_list size ms" for ms
  proof (induction ms)
    case Nil
    then show ?case by simp
  next
    case (Cons m ms)
    show ?case
    proof (cases "ms = []")
      case True
      with one[of m] show ?thesis by (simp add: size_list_append)
    next
      case False
      with Cons.IH one[of m] show ?thesis by (simp add: size_list_append)
    qed
  qed
  from this[OF ne] show "(concat (map visible_children ns), ns) \<in> measure (size_list size)"
    by simp
qed

declare level_order.simps [simp del]

text \<open>
  The index a node contributes as an ordinary declaration (\<open>-1\<close> for none: a rule, or a
  property that is not in the table), the indices a list of nodes contributes in this
  way, and the key that counts a list of indices: the distinct indices in ascending
  order, each with the number of its occurrences.
\<close>

fun declared_index :: "string list \<Rightarrow> AstNode \<Rightarrow> int" where
  "declared_index order (Declaration p v i) = indexOf order p"
| "declared_index order (RuleNode r) = - 1"

definition table_indices :: "string list \<Rightarrow> AstNode list \<Rightarrow> int list" where
  "table_indices order ns = filter (\<lambda>k. k \<noteq> - 1) (map (declared_index order) ns)"

definition key_of_indices :: "int list \<Rightarrow> int list \<times> int list" where
  "key_of_indices ks =
     (let keys = sorted_list_of_set (set ks) in (keys, map (\<lambda>k. int (count_list ks k)) keys))"

text \<open>
  Two devices of the proofs: the order in which a queue hands out the nodes, and the
  indices a pass over a list of nodes counts when it stops at the first override.
\<close>

function queue_order :: "AstNode list \<Rightarrow> AstNode list" where
  "queue_order [] = []"
| "queue_order (n # q) = n # queue_order (q @ visible_children n)"
  by pat_completeness auto
termination
proof (relation "measure (size_list size)")
  show "wf (measure (size_list size))" by simp
next
  fix n :: AstNode and q :: "AstNode list"
  have "size_list size (visible_children n) < Suc (size n)"
  proof (cases n)
    case (Declaration p v i)
    then show ?thesis by simp
  next
    case (RuleNode r)
    then show ?thesis by (cases r) simp
  qed
  then show "(q @ visible_children n, n # q) \<in> measure (size_list size)"
    by (simp add: size_list_append)
qed

fun counted :: "string list \<Rightarrow> AstNode list \<Rightarrow> int list" where
  "counted order [] = []"
| "counted order (Declaration p v i # ns) =
     (if p = ''--tw-sort'' \<and> indexOf order v \<noteq> - 1 then [indexOf order v]
      else if indexOf order p \<noteq> - 1 then indexOf order p # counted order ns
      else counted order ns)"
| "counted order (RuleNode r # ns) = counted order ns"

section \<open>Vocabulary of the statements about ordering and batches\<close>

text \<open>
  None of these is part of the program. \<open>insort_by\<close> and \<open>sort_by\<close> are \<open>insert_sorted\<close>
  and \<open>array_sort\<close> for a comparator that always returns; \<open>comparator_value\<close> is the value
  \<open>sort_comparator\<close> returns (the loop of lines 80-87 leaves \<open>offset = 0\<close>).
\<close>

fun insort_by :: "('a \<Rightarrow> 'a \<Rightarrow> int) \<Rightarrow> 'a \<Rightarrow> 'a list \<Rightarrow> 'a list" where
  "insort_by f x [] = [x]"
| "insort_by f x (y # ys) = (if f x y \<le> 0 then x # y # ys else y # insort_by f x ys)"

fun sort_by :: "('a \<Rightarrow> 'a \<Rightarrow> int) \<Rightarrow> 'a list \<Rightarrow> 'a list" where
  "sort_by f [] = []"
| "sort_by f (x # xs) = insort_by f x (sort_by f xs)"


text \<open>
  A comparator orders consistently on a set when, read as "not greater", it is total and
  transitive there; two elements tie when neither is greater.
\<close>

definition consistent_on :: "'a set \<Rightarrow> ('a \<Rightarrow> 'a \<Rightarrow> int) \<Rightarrow> bool" where
  "consistent_on S f \<longleftrightarrow>
     (\<forall>a\<in>S. \<forall>b\<in>S. 0 < f a b \<longrightarrow> f b a \<le> 0) \<and>
     (\<forall>a\<in>S. \<forall>b\<in>S. \<forall>c\<in>S. f a b \<le> 0 \<and> f b c \<le> 0 \<longrightarrow> f a c \<le> 0)"

definition tie :: "('a \<Rightarrow> 'a \<Rightarrow> int) \<Rightarrow> 'a \<Rightarrow> 'a \<Rightarrow> bool" where
  "tie f a b \<longleftrightarrow> f a b \<le> 0 \<and> f b a \<le> 0"









text \<open>
  The elements of a list in the order of their first occurrence; and the condition that,
  within a batch, the parser hands out one candidate object per text: two texts of the
  batch that parse to the same object are the same text.
\<close>

definition first_occurrences :: "'a list \<Rightarrow> 'a list" where
  "first_occurrences xs = rev (remdups (rev xs))"


text \<open>
  The used variants in the order of the registry's comparison; what the second loop
  emits for one text (its node and the node's entry), if it parses and compiles; and the
  emitted pairs of a batch in input order, a repeated text standing where it first
  occurs.
\<close>

definition used_variants_sorted :: "DesignSystem \<Rightarrow> Variant list" where
  "used_variants_sorted designSystem =
     sort_by (variant_compare (variants_registry designSystem)) (getUsedVariants designSystem)"






section \<open>Concrete inputs\<close>

text \<open>
  A registry, used where a statement is evaluated: the root \<^verbatim>\<open>group\<close> rewrites the
  selector of the rule it is given, the root \<^verbatim>\<open>never\<close> applies to nothing, the root
  \<^verbatim>\<open>mark\<close> puts a declaration in front of the children of the rule, and the roots
  \<^verbatim>\<open>hover\<close> and \<^verbatim>\<open>focus\<close> wrap the children of the rule in a rule of their own; no
  other root is registered. Its comparison orders the variants by their nesting depth.
\<close>

fun variant_depth :: "Variant \<Rightarrow> int" where
  "variant_depth (Arbitrary sel) = 0"
| "variant_depth (Static rt) = 1"
| "variant_depth (Compound rt inner) = 2 + variant_depth inner"

definition wrap_applyFn :: "string \<Rightarrow> ApplyFn" where
  "wrap_applyFn rt r v = Some (Rule (selector r) [RuleNode (rule (''&:'' @ rt) (nodes r))])"

definition prefix_applyFn :: "string \<Rightarrow> ApplyFn" where
  "prefix_applyFn rt r v = Some (Rule (CHR ''.'' # rt @ '' '' @ selector r) (nodes r))"

definition registry0 :: Variants where
  "registry0 =
     \<lparr>get_applyFn = (\<lambda>rt. if rt = ''group'' then Some (prefix_applyFn rt)
                          else if rt = ''never'' then Some (\<lambda>r v. None)
                          else if rt = ''mark''
                          then Some (\<lambda>r v. Some (Rule (selector r)
                                                    (Declaration ''content'' ''x'' False # nodes r)))
                          else if rt = ''hover'' \<or> rt = ''focus'' then Some (wrap_applyFn rt)
                          else None),
      variant_compare = (\<lambda>a z. variant_depth a - variant_depth z)\<rparr>"


text \<open>
  The imported collaborators: a table of two properties, a colour resolver that resolves
  nothing, a comparison of texts by length, and an escape that changes nothing.
\<close>

definition imports0 :: Imports where
  "imports0 =
     \<lparr>GLOBAL_PROPERTY_ORDER = [''padding'', ''display''],
      asColor = (\<lambda>v m t. Inr None),
      compare = (\<lambda>a z. int (length a) - int (length z)),
      escape = (\<lambda>s. s)\<rparr>"

text \<open>
  A design system: \<^verbatim>\<open>flex\<close>, \<^verbatim>\<open>grid\<close> and \<^verbatim>\<open>p-4\<close> compile to one declaration each,
  \<^verbatim>\<open>hover:flex\<close>, \<^verbatim>\<open>focus:flex\<close> and \<^verbatim>\<open>group-hover:flex\<close> carry a variant,
  \<^verbatim>\<open>missing:flex\<close> carries one whose root is not registered, \<^verbatim>\<open>blank\<close> has a utility
  that answers the empty list, \<^verbatim>\<open>ghost\<close> parses and has no utility; \<^verbatim>\<open>fallback\<close>
  and \<^verbatim>\<open>refused\<close> have two utilities each, of which the one registered last answers
  \<^verbatim>\<open>undefined\<close> for \<^verbatim>\<open>fallback\<close> and \<^verbatim>\<open>null\<close> for \<^verbatim>\<open>refused\<close>; no other text
  parses.
\<close>

definition candidate0 :: "nat \<Rightarrow> string \<Rightarrow> string \<Rightarrow> Variant list \<Rightarrow> Candidate" where
  "candidate0 i k r vs =
     \<lparr>ident = i, kind = k, root = r, property = [], cvalue = [], modifier = None,
      important = False, variants = vs\<rparr>"

definition designSystem0 :: DesignSystem where
  "designSystem0 =
     \<lparr>parseCandidate = (\<lambda>raw.
        if raw = ''flex'' then Some (candidate0 1 ''static'' ''flex'' [])
        else if raw = ''hover:flex'' then Some (candidate0 2 ''static'' ''flex'' [Static ''hover''])
        else if raw = ''p-4'' then Some (candidate0 3 ''functional'' ''p'' [])
        else if raw = ''ghost'' then Some (candidate0 4 ''static'' ''ghost'' [])
        else if raw = ''blank'' then Some (candidate0 5 ''static'' ''blank'' [])
        else if raw = ''group-hover:flex''
        then Some (candidate0 6 ''static'' ''flex'' [Compound ''group'' (Static ''hover'')])
        else if raw = ''grid'' then Some (candidate0 7 ''static'' ''grid'' [])
        else if raw = ''fallback'' then Some (candidate0 8 ''static'' ''fallback'' [])
        else if raw = ''refused'' then Some (candidate0 9 ''static'' ''refused'' [])
        else if raw = ''focus:flex'' then Some (candidate0 10 ''static'' ''flex'' [Static ''focus''])
        else if raw = ''missing:flex''
        then Some (candidate0 11 ''static'' ''flex'' [Static ''missing''])
        else None),
      getUsedVariants = [Static ''hover'', Compound ''group'' (Static ''hover'')],
      variants_registry = registry0,
      utilities_get = (\<lambda>rt.
        if rt = ''flex''
        then Some [\<lparr>ukind = ''static'', compileFn = (\<lambda>c. Nodes [decl ''display'' ''flex''])\<rparr>]
        else if rt = ''p''
        then Some [\<lparr>ukind = ''functional'', compileFn = (\<lambda>c. Nodes [decl ''padding'' ''1rem''])\<rparr>]
        else if rt = ''blank''
        then Some [\<lparr>ukind = ''static'', compileFn = (\<lambda>c. Nodes [])\<rparr>]
        else if rt = ''grid''
        then Some [\<lparr>ukind = ''static'', compileFn = (\<lambda>c. Nodes [decl ''display'' ''grid''])\<rparr>]
        else if rt = ''fallback''
        then Some [\<lparr>ukind = ''static'', compileFn = (\<lambda>c. Nodes [decl ''display'' ''block''])\<rparr>,
                   \<lparr>ukind = ''static'', compileFn = (\<lambda>c. Undefined)\<rparr>]
        else if rt = ''refused''
        then Some [\<lparr>ukind = ''static'', compileFn = (\<lambda>c. Nodes [decl ''display'' ''block''])\<rparr>,
                   \<lparr>ukind = ''static'', compileFn = (\<lambda>c. Null)\<rparr>]
        else None),
      theme = (\<lambda>k. None)\<rparr>"

section \<open>Importance annotation: properties\<close>

lemma length_applyImportant: "length (applyImportant ast) = length ast"
  by (induction ast rule: applyImportant.induct) auto

lemma nth_applyImportant:
  "i < length ast \<Longrightarrow>
   applyImportant ast ! i =
     (case ast ! i of
        Declaration p v imp \<Rightarrow> Declaration p v True
      | RuleNode r \<Rightarrow>
          if selector r = ''@at-root'' then RuleNode r
          else RuleNode (Rule (selector r) (applyImportant (nodes r))))"
proof (induction ast arbitrary: i rule: applyImportant.induct)
  case 1
  then show ?case by simp
next
  case (2 s cs ast)
  then show ?case by (cases i) auto
next
  case (3 p v imp ast)
  then show ?case by (cases i) auto
qed

lemma node_at_applyImportant:
  "node_at ast p = Some n \<Longrightarrow>
   node_at (applyImportant ast) p =
     Some (if below_at_root ast p then n
           else (case n of
                   Declaration pr v imp \<Rightarrow> Declaration pr v True
                 | RuleNode r \<Rightarrow>
                     if selector r = ''@at-root'' then RuleNode r
                     else RuleNode (Rule (selector r) (applyImportant (nodes r)))))"
proof (induction ast p rule: node_at.induct)
  case (1 ns)
  then show ?case by simp
next
  case (2 ns i)
  then show ?case
    by (auto simp: length_applyImportant nth_applyImportant split: if_splits)
next
  case (3 ns i j p)
  from "3.prems" have i: "i < length ns"
    by (simp split: if_splits)
  from "3.prems" i obtain r where r: "ns ! i = RuleNode r" and at: "node_at (nodes r) (j # p) = Some n"
    by (auto split: AstNode.splits)
  show ?case
  proof (cases "selector r = ''@at-root''")
    case True
    with i r at show ?thesis
      by (simp add: length_applyImportant nth_applyImportant)
  next
    case False
    with i r at "3.IH"[OF i r at] show ?thesis
      by (simp add: length_applyImportant nth_applyImportant)
  qed
qed

lemma node_at_applyImportant_None:
  "node_at ast p = None \<Longrightarrow> \<not> below_at_root ast p \<Longrightarrow> node_at (applyImportant ast) p = None"
proof (induction ast p rule: node_at.induct)
  case (1 ns)
  then show ?case by simp
next
  case (2 ns i)
  then show ?case by (simp add: length_applyImportant split: if_splits)
next
  case (3 ns i j p)
  show ?case
  proof (cases "i < length ns")
    case False
    then show ?thesis by (simp add: length_applyImportant)
  next
    case i: True
    show ?thesis
    proof (cases "ns ! i")
      case (Declaration pr v imp)
      with i show ?thesis by (simp add: length_applyImportant nth_applyImportant)
    next
      case (RuleNode r)
      with i "3.prems" have nar: "selector r \<noteq> ''@at-root''" and nb: "\<not> below_at_root (nodes r) (j # p)"
        and none: "node_at (nodes r) (j # p) = None"
        by auto
      from "3.IH"[OF i RuleNode none nb] i RuleNode nar show ?thesis
        by (simp add: length_applyImportant nth_applyImportant)
    qed
  qed
qed

text \<open>
  C7. The importance pass marks every declaration that is reached without passing
  through an \<^verbatim>\<open>@at-root\<close> rule, and leaves an \<^verbatim>\<open>@at-root\<close> rule and every node below
  one exactly as it was: at every path \<open>p\<close> of the forest, a declaration not below
  \<^verbatim>\<open>@at-root\<close> is the same declaration with \<open>important = True\<close>; a node below
  \<^verbatim>\<open>@at-root\<close> is the same node; an \<^verbatim>\<open>@at-root\<close> rule is the same rule, subtree
  included.
\<close>

theorem applyImportant_marks_outside_at_root:
  "(node_at ast p = Some (Declaration pr v imp) \<and> \<not> below_at_root ast p \<longrightarrow>
      node_at (applyImportant ast) p = Some (Declaration pr v True)) \<and>
   (node_at ast p = Some n \<and> below_at_root ast p \<longrightarrow>
      node_at (applyImportant ast) p = Some n) \<and>
   (node_at ast p = Some (RuleNode r) \<and> selector r = ''@at-root'' \<longrightarrow>
      node_at (applyImportant ast) p = Some (RuleNode r))"
  using node_at_applyImportant[of ast p] by auto

theorem applyImportant_marks_outside_at_root_witness:
  "node_at [RuleNode (Rule ''.a'' [Declaration ''color'' ''red'' False]),
            RuleNode (Rule ''@at-root'' [Declaration ''syntax'' ''*'' False])] [0, 0]
     = Some (Declaration ''color'' ''red'' False) \<and>
   node_at (applyImportant
      [RuleNode (Rule ''.a'' [Declaration ''color'' ''red'' False]),
       RuleNode (Rule ''@at-root'' [Declaration ''syntax'' ''*'' False])]) [0, 0]
     = Some (Declaration ''color'' ''red'' True) \<and>
   below_at_root [RuleNode (Rule ''.a'' [Declaration ''color'' ''red'' False]),
       RuleNode (Rule ''@at-root'' [Declaration ''syntax'' ''*'' False])] [1, 0] \<and>
   node_at (applyImportant
      [RuleNode (Rule ''.a'' [Declaration ''color'' ''red'' False]),
       RuleNode (Rule ''@at-root'' [Declaration ''syntax'' ''*'' False])]) [1, 0]
     = Some (Declaration ''syntax'' ''*'' False) \<and>
   node_at (applyImportant
      [RuleNode (Rule ''.a'' [Declaration ''color'' ''red'' False]),
       RuleNode (Rule ''@at-root'' [Declaration ''syntax'' ''*'' False])]) [1]
     = Some (RuleNode (Rule ''@at-root'' [Declaration ''syntax'' ''*'' False]))"
  using applyImportant_marks_outside_at_root
    [where ast = "[RuleNode (Rule ''.a'' [Declaration ''color'' ''red'' False]),
          RuleNode (Rule ''@at-root'' [Declaration ''syntax'' ''*'' False])]"
       and p = "[0, 0]" and pr = "''color''" and v = "''red''" and imp = False]
    applyImportant_marks_outside_at_root
    [where ast = "[RuleNode (Rule ''.a'' [Declaration ''color'' ''red'' False]),
          RuleNode (Rule ''@at-root'' [Declaration ''syntax'' ''*'' False])]"
       and p = "[1, 0]" and n = "Declaration ''syntax'' ''*'' False"]
    applyImportant_marks_outside_at_root
    [where ast = "[RuleNode (Rule ''.a'' [Declaration ''color'' ''red'' False]),
          RuleNode (Rule ''@at-root'' [Declaration ''syntax'' ''*'' False])]"
       and p = "[1]" and r = "Rule ''@at-root'' [Declaration ''syntax'' ''*'' False]"]
  by simp

section \<open>Variant application: properties\<close>

lemma apply_to_children_Some_iff:
  "apply_to_children f v cs = Some cs' \<longleftrightarrow>
   list_all2 (\<lambda>c c'. \<exists>r r'. c = RuleNode r \<and> f r v = Some r' \<and> c' = RuleNode r') cs cs'"
proof (induction f v cs arbitrary: cs' rule: apply_to_children.induct)
  case (1 f v)
  then show ?case by auto
next
  case (2 f v p a i rest)
  then show ?case by (auto simp: list_all2_Cons1)
next
  case (3 f v child rest)
  then show ?case
    by (auto simp: list_all2_Cons1 split: option.splits)
qed

lemma apply_to_children_not_rule:
  "\<not> list_all is_rule cs \<Longrightarrow> apply_to_children f v cs = None"
  by (induction f v cs rule: apply_to_children.induct) (auto split: option.splits)

lemma apply_to_children_rejected:
  "RuleNode child \<in> set cs \<Longrightarrow> f child v = None \<Longrightarrow> apply_to_children f v cs = None"
proof (induction f v cs rule: apply_to_children.induct)
  case (1 f v)
  then show ?case by simp
next
  case (2 f v p a i rest)
  then show ?case by simp
next
  case (3 f v c rest)
  show ?case
  proof (cases "c = child")
    case True
    with "3.prems" show ?thesis by simp
  next
    case False
    with "3.prems" have "RuleNode child \<in> set rest" by simp
    with "3.IH" "3.prems" show ?thesis by (simp split: option.splits)
  qed
qed

lemma length_walk_slot: "length (walk_slot orig cs) = length cs"
  by (induction orig cs rule: walk_slot.induct) auto

lemma nth_walk_slot:
  "i < length cs \<Longrightarrow>
   walk_slot orig cs ! i =
     (case cs ! i of
        Declaration a b c \<Rightarrow> Declaration a b c
      | RuleNode r \<Rightarrow>
          if nodes r = [] then RuleNode (Rule (selector r) orig)
          else RuleNode (Rule (selector r) (walk_slot orig (nodes r))))"
proof (induction orig cs arbitrary: i rule: walk_slot.induct)
  case (1 orig)
  then show ?case by simp
next
  case (2 orig p v imp ast)
  then show ?case by (cases i) auto
next
  case (3 orig s cs ast)
  then show ?case by (cases i) auto
qed

lemma node_at_Nil [simp]: "node_at [] p = None"
  by (cases "([] :: AstNode list, p)" rule: node_at.cases) auto

lemma node_at_walk_slot:
  "node_at cs p = Some n \<Longrightarrow>
   node_at (walk_slot orig cs) p =
     Some (case n of
             Declaration a b c \<Rightarrow> Declaration a b c
           | RuleNode r \<Rightarrow>
               if nodes r = [] then RuleNode (Rule (selector r) orig)
               else RuleNode (Rule (selector r) (walk_slot orig (nodes r))))"
proof (induction cs p rule: node_at.induct)
  case (1 ns)
  then show ?case by simp
next
  case (2 ns i)
  then show ?case
    by (auto simp: length_walk_slot nth_walk_slot split: if_splits)
next
  case (3 ns i j p)
  from "3.prems" have i: "i < length ns"
    by (simp split: if_splits)
  from "3.prems" i obtain r where r: "ns ! i = RuleNode r" and at: "node_at (nodes r) (j # p) = Some n"
    by (auto split: AstNode.splits)
  from at have ne: "nodes r \<noteq> []" by auto
  from "3.IH"[OF i r at] i r ne show ?case
    by (simp add: length_walk_slot nth_walk_slot)
qed

lemma node_at_Cons_Suc: "node_at (x # cs) (Suc k # q) = node_at cs (k # q)"
  by (cases q) auto

lemma node_at_next_sibling:
  "p \<noteq> [] \<Longrightarrow> node_at (x # cs) (next_sibling p) = node_at cs p"
  by (cases "(cs, p)" rule: node_at.cases) auto

lemma next_sibling_Nil_iff [simp]: "next_sibling p = [] \<longleftrightarrow> p = []"
  by (cases p) auto

lemma first_slot_nonempty: "first_slot cs = Some p \<Longrightarrow> p \<noteq> []"
  by (induction cs arbitrary: p rule: first_slot.induct) (auto split: if_splits option.splits)

lemma first_slot_is_slot:
  "first_slot cs = Some p \<Longrightarrow> \<exists>s. node_at cs p = Some (RuleNode (Rule s []))"
proof (induction cs arbitrary: p rule: first_slot.induct)
  case 1
  then show ?case by simp
next
  case (2 a b c ast)
  then obtain q where q: "first_slot ast = Some q" and p: "p = next_sibling q"
    by auto
  from first_slot_nonempty[OF q] "2.IH"[OF q] p show ?case
    by (simp add: node_at_next_sibling)
next
  case (3 s cs ast)
  show ?case
  proof (cases "cs = []")
    case True
    with "3.prems" show ?thesis by auto
  next
    case ne: False
    show ?thesis
    proof (cases "first_slot cs")
      case (Some q)
      with ne "3.prems" have p: "p = 0 # q" by simp
      from first_slot_nonempty[OF Some] obtain j q' where q': "q = j # q'"
        by (cases q) auto
      from "3.IH"(1)[OF ne Some] p q' show ?thesis by simp
    next
      case None
      with ne "3.prems" obtain q where q: "first_slot ast = Some q" and p: "p = next_sibling q"
        by auto
      from first_slot_nonempty[OF q] "3.IH"(2)[OF ne None q] p show ?thesis
        by (simp add: node_at_next_sibling)
    qed
  qed
qed

lemma first_slot_None_nth:
  "first_slot ns = None \<Longrightarrow> i < length ns \<Longrightarrow> ns ! i = RuleNode r \<Longrightarrow>
   nodes r \<noteq> [] \<and> first_slot (nodes r) = None"
proof (induction ns arbitrary: i rule: first_slot.induct)
  case 1
  then show ?case by simp
next
  case (2 a b c ast)
  then show ?case by (cases i) auto
next
  case (3 s cs ast)
  then show ?case by (cases i) (auto split: if_splits option.splits)
qed

lemma first_slot_None:
  "first_slot cs = None \<Longrightarrow> node_at cs q \<noteq> Some (RuleNode (Rule s []))"
proof (induction cs q rule: node_at.induct)
  case (1 ns)
  then show ?case by simp
next
  case (2 ns i)
  show ?case
  proof
    assume "node_at ns [i] = Some (RuleNode (Rule s []))"
    then have "i < length ns" "ns ! i = RuleNode (Rule s [])"
      by (auto split: if_splits)
    with first_slot_None_nth[OF "2.prems", of i "Rule s []"] show False by simp
  qed
next
  case (3 ns i j p)
  show ?case
  proof
    assume a: "node_at ns (i # j # p) = Some (RuleNode (Rule s []))"
    then have i: "i < length ns" by (simp split: if_splits)
    from a i obtain r where r: "ns ! i = RuleNode r"
      and at: "node_at (nodes r) (j # p) = Some (RuleNode (Rule s []))"
      by (auto split: AstNode.splits)
    from first_slot_None_nth[OF "3.prems" i r] have "first_slot (nodes r) = None" by simp
    from "3.IH"[OF i r this] at show False by simp
  qed
qed

lemma doc_le_next_sibling: "p \<noteq> [] \<Longrightarrow> doc_le (next_sibling p) (Suc i # q) = doc_le p (i # q)"
  by (cases p) auto

lemma first_slot_first:
  "first_slot cs = Some p \<Longrightarrow> node_at cs q = Some (RuleNode (Rule s [])) \<Longrightarrow> doc_le p q"
proof (induction cs arbitrary: p q rule: first_slot.induct)
  case 1
  then show ?case by simp
next
  case (2 a b c ast)
  from "2.prems"(1) obtain p' where p': "first_slot ast = Some p'" and p: "p = next_sibling p'"
    by auto
  from "2.prems"(2) obtain i q' where q: "q = i # q'"
    by (cases q) auto
  show ?case
  proof (cases i)
    case 0
    with "2.prems"(2) q show ?thesis by (cases q') auto
  next
    case (Suc k)
    with "2.prems"(2) q have "node_at ast (k # q') = Some (RuleNode (Rule s []))"
      by (simp add: node_at_Cons_Suc)
    from "2.IH"[OF p' this] p q Suc first_slot_nonempty[OF p'] show ?thesis
      by (simp add: doc_le_next_sibling)
  qed
next
  case (3 s' cs ast)
  from "3.prems"(2) obtain i q' where q: "q = i # q'"
    by (cases q) auto
  show ?case
  proof (cases "cs = []")
    case True
    with "3.prems"(1) q show ?thesis by (cases i) auto
  next
    case ne: False
    show ?thesis
    proof (cases "first_slot cs")
      case (Some p')
      with ne "3.prems"(1) have p: "p = 0 # p'" by simp
      show ?thesis
      proof (cases i)
        case 0
        show ?thesis
        proof (cases q')
          case Nil
          with "3.prems"(2) q 0 ne show ?thesis by simp
        next
          case (Cons j q'')
          with "3.prems"(2) q 0 have "node_at cs q' = Some (RuleNode (Rule s []))" by simp
          from "3.IH"(1)[OF ne Some this] p q 0 show ?thesis by simp
        qed
      next
        case (Suc k)
        with p q show ?thesis by simp
      qed
    next
      case None
      with ne "3.prems"(1) obtain p' where p': "first_slot ast = Some p'" and p: "p = next_sibling p'"
        by auto
      show ?thesis
      proof (cases i)
        case 0
        show ?thesis
        proof (cases q')
          case Nil
          with "3.prems"(2) q 0 ne show ?thesis by simp
        next
          case (Cons j q'')
          with "3.prems"(2) q 0 have "node_at cs q' = Some (RuleNode (Rule s []))" by simp
          with first_slot_None[OF None] show ?thesis by simp
        qed
      next
        case (Suc k)
        with "3.prems"(2) q have "node_at ast (k # q') = Some (RuleNode (Rule s []))"
          by (simp add: node_at_Cons_Suc)
        from "3.IH"(2)[OF ne None p' this] p q Suc first_slot_nonempty[OF p'] show ?thesis
          by (simp add: doc_le_next_sibling)
      qed
    qed
  qed
qed

lemma walk_slot_no_slot: "first_slot cs = None \<Longrightarrow> walk_slot orig cs = cs"
  by (induction cs rule: first_slot.induct) (auto split: if_splits option.splits)

text \<open>
  C9. An arbitrary or a compound variant that applies changes the children of the rule
  only: the rule that results has the selector of the rule given. (It is a rule by its
  type, so its kind cannot change.) A static variant is left out: its \<^verbatim>\<open>applyFn\<close> is
  handed the rule itself.
\<close>

theorem applyVariant_keeps_selector:
  "applyVariant node variant registry = Inr (Some node') \<Longrightarrow> (\<forall>rt. variant \<noteq> Static rt) \<Longrightarrow>
   selector node' = selector node"
  by (cases variant) (auto split: option.splits sum.splits)

theorem applyVariant_keeps_selector_witness:
  "applyVariant (Rule ''.flex'' [Declaration ''display'' ''flex'' False])
       (Compound ''group'' (Static ''hover'')) registry0 =
     Inr (Some (Rule ''.flex''
        [RuleNode (Rule ''.group &:hover'' [Declaration ''display'' ''flex'' False])])) \<and>
   selector (Rule ''.flex''
        [RuleNode (Rule ''.group &:hover'' [Declaration ''display'' ''flex'' False])]) =
   selector (Rule ''.flex'' [Declaration ''display'' ''flex'' False])"
  using applyVariant_keeps_selector
    [of "Rule ''.flex'' [Declaration ''display'' ''flex'' False]"
        "Compound ''group'' (Static ''hover'')" registry0
        "Rule ''.flex''
          [RuleNode (Rule ''.group &:hover'' [Declaration ''display'' ''flex'' False])]"]
  by (simp add: registry0_def wrap_applyFn_def prefix_applyFn_def rule_def)

text \<open>
  C1, as amended. Applying a compound variant whose root is not registered raises (line
  158). Let the root be registered, with \<^verbatim>\<open>applyFn\<close> its behaviour function. Applying
  the compound first applies the inner variant to the placeholder \<^verbatim>\<open>@slot\<close>; when that
  raises, the application raises, and when that fails, the application fails. When a child of the populated placeholder is not a rule, the
  application fails; it also fails when \<^verbatim>\<open>applyFn\<close> rejects a child. Otherwise,
  \<open>children\<close> being the placeholder's children as \<^verbatim>\<open>applyFn\<close> left them, the
  application succeeds, keeps the selector of the rule, and replaces the children of the
  rule by \<open>children\<close>, in which every declaration stays what it was and every rule keeps
  its selector. When \<open>children\<close> hold a rule without children, the first such rule in
  document order receives the original children, unchanged (nothing below it is
  visited); when they hold none, the new children are \<open>children\<close> as they are, and the
  original children are gone.
\<close>

theorem applyVariant_compound:
  "(get_applyFn registry rt = None \<longrightarrow>
      applyVariant node (Compound rt inner) registry = Inl TypeError) \<and>
   (get_applyFn registry rt = Some applyFn \<longrightarrow>
    (applyVariant (rule ''@slot'' []) inner registry = Inl e \<longrightarrow>
       applyVariant node (Compound rt inner) registry = Inl e) \<and>
    (applyVariant (rule ''@slot'' []) inner registry = Inr None \<longrightarrow>
       applyVariant node (Compound rt inner) registry = Inr None) \<and>
    (applyVariant (rule ''@slot'' []) inner registry = Inr (Some isolatedNode) \<and>
     \<not> list_all is_rule (nodes isolatedNode) \<longrightarrow>
       applyVariant node (Compound rt inner) registry = Inr None) \<and>
    (applyVariant (rule ''@slot'' []) inner registry = Inr (Some isolatedNode) \<and>
     RuleNode child \<in> set (nodes isolatedNode) \<and>
     applyFn child (Compound rt inner) = None \<longrightarrow>
       applyVariant node (Compound rt inner) registry = Inr None) \<and>
    (applyVariant (rule ''@slot'' []) inner registry = Inr (Some isolatedNode) \<and>
     list_all2 (\<lambda>c c'. \<exists>r r'. c = RuleNode r \<and>
                  applyFn r (Compound rt inner) = Some r' \<and> c' = RuleNode r')
       (nodes isolatedNode) children \<longrightarrow>
       (\<exists>node'. applyVariant node (Compound rt inner) registry = Inr (Some node') \<and>
          selector node' = selector node \<and>
          length (nodes node') = length children \<and>
          (first_slot children = None \<longrightarrow> nodes node' = children) \<and>
          (\<forall>p. first_slot children = Some p \<longrightarrow>
             (\<exists>s. node_at children p = Some (RuleNode (Rule s [])) \<and>
                  node_at (nodes node') p = Some (RuleNode (Rule s (nodes node))) \<and>
                  (\<forall>q s'. node_at children q = Some (RuleNode (Rule s' [])) \<longrightarrow> doc_le p q))) \<and>
          (\<forall>p a b c. node_at children p = Some (Declaration a b c) \<longrightarrow>
             node_at (nodes node') p = Some (Declaration a b c)) \<and>
          (\<forall>p r. node_at children p = Some (RuleNode r) \<longrightarrow>
             (\<exists>r'. node_at (nodes node') p = Some (RuleNode r') \<and> selector r' = selector r)))))"
proof (intro conjI impI)
  assume "get_applyFn registry rt = None"
  then show "applyVariant node (Compound rt inner) registry = Inl TypeError" by simp
next
  assume reg: "get_applyFn registry rt = Some applyFn"
  {
    assume "applyVariant (rule ''@slot'' []) inner registry = Inl e"
    with reg show "applyVariant node (Compound rt inner) registry = Inl e" by simp
  }
  {
    assume "applyVariant (rule ''@slot'' []) inner registry = Inr None"
    with reg show "applyVariant node (Compound rt inner) registry = Inr None" by simp
  }
  {
    assume "applyVariant (rule ''@slot'' []) inner registry = Inr (Some isolatedNode) \<and>
      \<not> list_all is_rule (nodes isolatedNode)"
    with reg show "applyVariant node (Compound rt inner) registry = Inr None"
      by (simp add: apply_to_children_not_rule)
  }
  {
    assume "applyVariant (rule ''@slot'' []) inner registry = Inr (Some isolatedNode) \<and>
      RuleNode child \<in> set (nodes isolatedNode) \<and>
      applyFn child (Compound rt inner) = None"
    with reg show "applyVariant node (Compound rt inner) registry = Inr None"
      using apply_to_children_rejected
        [of child "nodes isolatedNode" applyFn "Compound rt inner"]
      by simp
  }
  assume a: "applyVariant (rule ''@slot'' []) inner registry = Inr (Some isolatedNode) \<and>
    list_all2 (\<lambda>c c'. \<exists>r r'. c = RuleNode r \<and>
                 applyFn r (Compound rt inner) = Some r' \<and> c' = RuleNode r')
      (nodes isolatedNode) children"
  then have ch: "apply_to_children applyFn (Compound rt inner) (nodes isolatedNode) =
      Some children"
    by (simp add: apply_to_children_Some_iff)
  let ?node' = "Rule (selector node) (walk_slot (nodes node) children)"
  from a ch reg have res: "applyVariant node (Compound rt inner) registry = Inr (Some ?node')"
    by simp
  have none: "nodes ?node' = children" if "first_slot children = None"
    using walk_slot_no_slot[OF that] by simp
  have slot: "node_at (nodes ?node') p = Some (RuleNode (Rule s (nodes node)))"
    if "node_at children p = Some (RuleNode (Rule s []))" for p s
    using node_at_walk_slot[OF that, of "nodes node"] by simp
  have first: "\<exists>s. node_at children p = Some (RuleNode (Rule s [])) \<and>
                 node_at (nodes ?node') p = Some (RuleNode (Rule s (nodes node))) \<and>
                 (\<forall>q s'. node_at children q = Some (RuleNode (Rule s' [])) \<longrightarrow> doc_le p q)"
    if "first_slot children = Some p" for p
    using first_slot_is_slot[OF that] slot first_slot_first[OF that] by blast
  have dcl: "node_at (nodes ?node') p = Some (Declaration a b c)"
    if "node_at children p = Some (Declaration a b c)" for p a b c
    using node_at_walk_slot[OF that, of "nodes node"] by simp
  have rl: "\<exists>r'. node_at (nodes ?node') p = Some (RuleNode r') \<and> selector r' = selector r"
    if "node_at children p = Some (RuleNode r)" for p r
    using node_at_walk_slot[OF that, of "nodes node"] by simp
  show "\<exists>node'. applyVariant node (Compound rt inner) registry = Inr (Some node') \<and>
         selector node' = selector node \<and>
         length (nodes node') = length children \<and>
         (first_slot children = None \<longrightarrow> nodes node' = children) \<and>
         (\<forall>p. first_slot children = Some p \<longrightarrow>
            (\<exists>s. node_at children p = Some (RuleNode (Rule s [])) \<and>
                 node_at (nodes node') p = Some (RuleNode (Rule s (nodes node))) \<and>
                 (\<forall>q s'. node_at children q = Some (RuleNode (Rule s' [])) \<longrightarrow> doc_le p q))) \<and>
         (\<forall>p a b c. node_at children p = Some (Declaration a b c) \<longrightarrow>
            node_at (nodes node') p = Some (Declaration a b c)) \<and>
         (\<forall>p r. node_at children p = Some (RuleNode r) \<longrightarrow>
            (\<exists>r'. node_at (nodes node') p = Some (RuleNode r') \<and> selector r' = selector r))"
    apply (rule exI[of _ ?node'])
    using res none first dcl rl by (simp add: length_walk_slot)
qed

theorem applyVariant_compound_witness:
  "get_applyFn registry0 ''missing'' = None \<and>
   applyVariant (Rule ''.flex'' [Declaration ''display'' ''flex'' False])
       (Compound ''missing'' (Static ''hover'')) registry0 = Inl TypeError \<and>
   get_applyFn registry0 ''group'' = Some (prefix_applyFn ''group'') \<and>
   applyVariant (rule ''@slot'' []) (Static ''hover'') registry0 =
     Inr (Some (Rule ''@slot'' [RuleNode (Rule ''&:hover'' [])])) \<and>
   prefix_applyFn ''group'' (Rule ''&:hover'' []) (Compound ''group'' (Static ''hover'')) =
     Some (Rule ''.group &:hover'' []) \<and>
   first_slot [RuleNode (Rule ''.group &:hover'' [])] = Some [0] \<and>
   applyVariant (Rule ''.flex'' [Declaration ''display'' ''flex'' False])
       (Compound ''group'' (Static ''hover'')) registry0 =
     Inr (Some (Rule ''.flex''
        [RuleNode (Rule ''.group &:hover'' [Declaration ''display'' ''flex'' False])])) \<and>
   applyVariant (rule ''@slot'' []) (Static ''group'') registry0 =
     Inr (Some (Rule ''.group @slot'' [])) \<and>
   first_slot [] = None \<and>
   applyVariant (Rule ''.flex'' [Declaration ''display'' ''flex'' False])
       (Compound ''group'' (Static ''group'')) registry0 = Inr (Some (Rule ''.flex'' [])) \<and>
   applyVariant (rule ''@slot'' []) (Static ''missing'') registry0 = Inl TypeError \<and>
   applyVariant (Rule ''.flex'' [Declaration ''display'' ''flex'' False])
       (Compound ''group'' (Static ''missing'')) registry0 = Inl TypeError \<and>
   applyVariant (rule ''@slot'' []) (Static ''never'') registry0 = Inr None \<and>
   applyVariant (Rule ''.flex'' [Declaration ''display'' ''flex'' False])
       (Compound ''group'' (Static ''never'')) registry0 = Inr None \<and>
   applyVariant (rule ''@slot'' []) (Static ''mark'') registry0 =
     Inr (Some (Rule ''@slot'' [Declaration ''content'' ''x'' False])) \<and>
   \<not> list_all is_rule [Declaration ''content'' ''x'' False] \<and>
   applyVariant (Rule ''.flex'' [Declaration ''display'' ''flex'' False])
       (Compound ''group'' (Static ''mark'')) registry0 = Inr None \<and>
   get_applyFn registry0 ''never'' = Some (\<lambda>r v. None) \<and>
   applyVariant (rule ''@slot'' []) (Arbitrary ''&:hover'') registry0 =
     Inr (Some (Rule ''@slot'' [RuleNode (Rule ''&:hover'' [])])) \<and>
   applyVariant (Rule ''.flex'' [Declaration ''display'' ''flex'' False])
       (Compound ''never'' (Arbitrary ''&:hover'')) registry0 = Inr None"
  using applyVariant_compound
    [where inner = "Static ''hover''" and registry = registry0
       and node = "Rule ''.flex'' [Declaration ''display'' ''flex'' False]" and rt = "''missing''"]
    applyVariant_compound
    [where inner = "Static ''hover''" and registry = registry0
       and applyFn = "prefix_applyFn ''group''"
       and node = "Rule ''.flex'' [Declaration ''display'' ''flex'' False]" and rt = "''group''"
       and isolatedNode = "Rule ''@slot'' [RuleNode (Rule ''&:hover'' [])]"
       and child = "Rule ''&:hover'' []"
       and children = "[RuleNode (Rule ''.group &:hover'' [])]"]
    applyVariant_compound
    [where inner = "Static ''group''" and registry = registry0
       and applyFn = "prefix_applyFn ''group''"
       and node = "Rule ''.flex'' [Declaration ''display'' ''flex'' False]" and rt = "''group''"
       and isolatedNode = "Rule ''.group @slot'' []" and children = "[]"]
    applyVariant_compound
    [where inner = "Static ''missing''" and registry = registry0
       and applyFn = "prefix_applyFn ''group''" and e = TypeError
       and node = "Rule ''.flex'' [Declaration ''display'' ''flex'' False]" and rt = "''group''"]
    applyVariant_compound
    [where inner = "Static ''never''" and registry = registry0
       and applyFn = "prefix_applyFn ''group''"
       and node = "Rule ''.flex'' [Declaration ''display'' ''flex'' False]" and rt = "''group''"]
    applyVariant_compound
    [where inner = "Static ''mark''" and registry = registry0
       and applyFn = "prefix_applyFn ''group''"
       and node = "Rule ''.flex'' [Declaration ''display'' ''flex'' False]" and rt = "''group''"
       and isolatedNode = "Rule ''@slot'' [Declaration ''content'' ''x'' False]"]
    applyVariant_compound
    [where inner = "Arbitrary ''&:hover''" and registry = registry0
       and applyFn = "\<lambda>r v. None"
       and node = "Rule ''.flex'' [Declaration ''display'' ''flex'' False]" and rt = "''never''"
       and isolatedNode = "Rule ''@slot'' [RuleNode (Rule ''&:hover'' [])]"
       and child = "Rule ''&:hover'' []"]
  by (simp add: registry0_def wrap_applyFn_def prefix_applyFn_def rule_def)

text \<open>
  The claim as first stated let the application succeed whenever the inner variant
  applies and every child of the placeholder is a rule. Here both hold, and the
  application fails, since the compound's own \<^verbatim>\<open>applyFn\<close> rejects the child
  (lines 189-190).
\<close>

theorem applyVariant_compound_rejected_child:
  "applyVariant (rule ''@slot'' []) (Arbitrary ''&:hover'') registry0 =
     Inr (Some (Rule ''@slot'' [RuleNode (Rule ''&:hover'' [])])) \<and>
   list_all is_rule [RuleNode (Rule ''&:hover'' [])] \<and>
   applyVariant (Rule ''.flex'' [Declaration ''display'' ''flex'' False])
       (Compound ''never'' (Arbitrary ''&:hover'')) registry0 = Inr None"
  by (simp add: registry0_def rule_def)

section \<open>Property sort key: properties\<close>

lemma level_order_Nil [simp]: "level_order [] = []"
  by (subst level_order.simps) simp

lemma level_order_nonempty:
  "ns \<noteq> [] \<Longrightarrow> level_order ns = ns @ level_order (concat (map visible_children ns))"
  by (subst level_order.simps) simp

lemma queue_order_append:
  "queue_order (xs @ concat (map visible_children ys)) =
   xs @ queue_order (concat (map visible_children ys) @ concat (map visible_children xs))"
proof (induction xs arbitrary: ys)
  case Nil
  then show ?case by simp
next
  case (Cons x xs)
  from Cons.IH[of "ys @ [x]"] show ?case by simp
qed

lemma queue_order_level: "queue_order ns = level_order ns"
proof (induction ns rule: level_order.induct)
  case (1 ns)
  show ?case
  proof (cases "ns = []")
    case True
    then show ?thesis by simp
  next
    case False
    from queue_order_append[of ns "[]"] have "queue_order ns = ns @ queue_order (concat (map visible_children ns))"
      by simp
    with 1[OF False] False show ?thesis by (simp add: level_order_nonempty)
  qed
qed

lemma property_queue_counted:
  "property_queue order q m = fold (\<lambda>k m. count_index m k) (counted order (queue_order q)) m"
  by (induction order q m rule: property_queue.induct) auto

lemma counted_until_override:
  "list_all (\<lambda>n. \<not> sort_override order n) pre \<Longrightarrow> indexOf order v \<noteq> - 1 \<Longrightarrow>
   counted order (pre @ Declaration ''--tw-sort'' v i # post) =
     table_indices order pre @ [indexOf order v]"
proof (induction pre)
  case Nil
  then show ?case by (simp add: table_indices_def)
next
  case (Cons n pre)
  then show ?case by (cases n) (auto simp: table_indices_def)
qed

lemma map_fst_map_set:
  "map fst (map_set m k v) = (if k \<in> set (map fst m) then map fst m else map fst m @ [k])"
proof (induction m)
  case Nil
  then show ?case by simp
next
  case (Cons e m)
  obtain k' v' where e: "e = (k', v')" by (cases e)
  from Cons e show ?case by (cases "k' = k") (auto simp: image_iff)
qed

lemma map_of_map_set: "map_of (map_set m k v) = (map_of m)(k \<mapsto> v)"
  by (induction m) (auto simp: fun_eq_iff)

lemma count_index_keys:
  "map fst (count_index m k) = (if k \<in> set (map fst m) then map fst m else map fst m @ [k])"
  by (simp only: count_index_def map_fst_map_set)

lemma count_index_distinct: "distinct (map fst m) \<Longrightarrow> distinct (map fst (count_index m k))"
  by (simp add: count_index_keys)

lemma count_index_lookup:
  "map_of (count_index m k) j =
     (if j = k then Some ((case map_of m k of None \<Rightarrow> 0 | Some c \<Rightarrow> c) + 1) else map_of m j)"
  by (simp add: count_index_def map_of_map_set)

lemma fold_count_index:
  "distinct (map fst m) \<Longrightarrow>
   distinct (map fst (fold (\<lambda>k m. count_index m k) ks m)) \<and>
   set (map fst (fold (\<lambda>k m. count_index m k) ks m)) = set (map fst m) \<union> set ks \<and>
   (\<forall>j. j \<in> set (map fst m) \<union> set ks \<longrightarrow>
      map_of (fold (\<lambda>k m. count_index m k) ks m) j =
        Some ((case map_of m j of None \<Rightarrow> 0 | Some c \<Rightarrow> c) + int (count_list ks j)))"
proof (induction ks arbitrary: m)
  case Nil
  then show ?case
    by (auto simp: map_of_eq_None_iff[symmetric] simp del: map_of_eq_None_iff split: option.splits)
next
  case (Cons k ks)
  from Cons.prems have d: "distinct (map fst (count_index m k))"
    by (rule count_index_distinct)
  note IH = Cons.IH[OF d]
  have keys: "set (map fst (count_index m k)) = insert k (set (map fst m))"
    by (auto simp: count_index_keys)
  show ?case
  proof (intro conjI allI impI)
    show "distinct (map fst (fold (\<lambda>k m. count_index m k) (k # ks) m))"
      using IH by simp
    show "set (map fst (fold (\<lambda>k m. count_index m k) (k # ks) m)) = set (map fst m) \<union> set (k # ks)"
      using IH keys by auto
    fix j
    assume j: "j \<in> set (map fst m) \<union> set (k # ks)"
    then have "j \<in> set (map fst (count_index m k)) \<union> set ks"
      using keys by auto
    with IH have "map_of (fold (\<lambda>k m. count_index m k) ks (count_index m k)) j =
        Some ((case map_of (count_index m k) j of None \<Rightarrow> 0 | Some c \<Rightarrow> c) + int (count_list ks j))"
      by blast
    then show "map_of (fold (\<lambda>k m. count_index m k) (k # ks) m) j =
        Some ((case map_of m j of None \<Rightarrow> 0 | Some c \<Rightarrow> c) + int (count_list (k # ks) j))"
      by (simp add: count_index_lookup)
  qed
qed

lemma sort_key_fst_distinct:
  assumes "distinct (map fst m)"
  shows "map fst (sort_key fst m) = sorted_list_of_set (set (map fst m))"
    and "map snd (sort_key fst m) =
      map (\<lambda>k. the (map_of m k)) (sorted_list_of_set (set (map fst m)))"
proof -
  have s: "sorted (map fst (sort_key fst m))" by (rule sorted_sort_key)
  have ms: "mset (map fst (sort_key fst m)) = mset (map fst m)" by simp
  from assms have d: "distinct (map fst (sort_key fst m))"
    using ms by (metis distinct_count_atmost_1 set_mset_mset)
  have st: "set (map fst (sort_key fst m)) = set (map fst m)"
    using ms by (rule mset_eq_setD)
  from sorted_list_of_set.idem_if_sorted_distinct[OF s d] st
  show 1: "map fst (sort_key fst m) = sorted_list_of_set (set (map fst m))" by simp
  have "map snd (sort_key fst m) = map (\<lambda>k. the (map_of m k)) (map fst (sort_key fst m))"
  proof -
    have "snd e = the (map_of m (fst e))" if "e \<in> set (sort_key fst m)" for e
    proof -
      from that have "(fst e, snd e) \<in> set m" by simp
      with assms have "map_of m (fst e) = Some (snd e)" by simp
      then show ?thesis by simp
    qed
    then show ?thesis by (simp add: comp_def)
  qed
  with 1 show "map snd (sort_key fst m) =
      map (\<lambda>k. the (map_of m k)) (sorted_list_of_set (set (map fst m)))"
    by simp
qed

lemma getPropertySort_key:
  "getPropertySort order forest = key_of_indices (counted order (level_order forest))"
proof -
  let ?ks = "counted order (level_order forest)"
  let ?m = "fold (\<lambda>k m. count_index m k) ?ks []"
  have pq: "property_queue order forest [] = ?m"
    by (simp add: property_queue_counted queue_order_level)
  have f: "distinct (map fst ?m)" "set (map fst ?m) = set ?ks"
    "\<And>j. j \<in> set ?ks \<Longrightarrow> map_of ?m j = Some (int (count_list ?ks j))"
    using fold_count_index[of "[]" ?ks] by simp_all
  have "map (\<lambda>k. the (map_of ?m k)) (sorted_list_of_set (set ?ks)) =
      map (\<lambda>k. int (count_list ?ks k)) (sorted_list_of_set (set ?ks))"
    by (rule map_cong[OF refl]) (simp add: f(3))
  with sort_key_fst_distinct[OF f(1)] f(2) show ?thesis
    by (simp add: getPropertySort_def key_of_indices_def pq Let_def)
qed

lemma count_list_all_same: "set ks \<subseteq> {k} \<Longrightarrow> count_list ks k = length ks"
  by (induction ks) auto

lemma key_of_indices_single: "key_of_indices ks = ([k], [1]) \<longleftrightarrow> ks = [k]"
proof
  assume a: "key_of_indices ks = ([k], [1])"
  then have "fst (key_of_indices ks) = [k]" and "snd (key_of_indices ks) = [1]"
    by simp_all
  then have l: "sorted_list_of_set (set ks) = [k]"
    and m: "map (\<lambda>k. int (count_list ks k)) (sorted_list_of_set (set ks)) = [1]"
    by (simp_all add: key_of_indices_def Let_def)
  from m have c: "int (count_list ks k) = 1" unfolding l by simp
  from l have "set (sorted_list_of_set (set ks)) = {k}" by simp
  then have s: "set ks = {k}" by simp
  with count_list_all_same[of ks k] c have "length ks = 1" by simp
  then obtain x where "ks = [x]" by (cases ks) auto
  with s show "ks = [k]" by simp
next
  assume "ks = [k]"
  then show "key_of_indices ks = ([k], [1])" by (simp add: key_of_indices_def)
qed

lemma first_override:
  assumes "n \<in> set ns" "sort_override order n"
  shows "\<exists>pre v i post. ns = pre @ Declaration ''--tw-sort'' v i # post \<and>
     indexOf order v \<noteq> - 1 \<and> list_all (\<lambda>n. \<not> sort_override order n) pre"
proof -
  from assms have "\<exists>x\<in>set ns. sort_override order x" by blast
  from split_list_first_prop[OF this]
  obtain pre x post where ns: "ns = pre @ x # post" and x: "sort_override order x"
    and pre: "\<forall>y\<in>set pre. \<not> sort_override order y"
    by blast
  from x obtain v i where "x = Declaration ''--tw-sort'' v i" "indexOf order v \<noteq> - 1"
    by (cases x) auto
  with ns pre show ?thesis by (auto simp: list_all_iff)
qed

lemma set_level_order:
  "set (level_order ns) = set ns \<union> set (level_order (concat (map visible_children ns)))"
  by (cases "ns = []") (simp_all add: level_order_nonempty)

lemma set_level_order_append_aux:
  "ns = xs @ ys \<Longrightarrow> set (level_order ns) = set (level_order xs) \<union> set (level_order ys)"
proof (induction ns arbitrary: xs ys rule: level_order.induct)
  case (1 ns)
  show ?case
  proof (cases "ns = []")
    case True
    with 1 show ?thesis by simp
  next
    case False
    have "concat (map visible_children ns) =
        concat (map visible_children xs) @ concat (map visible_children ys)"
      using "1.prems" by simp
    from "1.IH"[OF False this] "1.prems" show ?thesis
      using set_level_order[of ns] set_level_order[of xs] set_level_order[of ys]
      by auto
  qed
qed

lemma set_level_order_Cons:
  "set (level_order (n # ns)) = set (level_order [n]) \<union> set (level_order ns)"
  using set_level_order_append_aux[of "n # ns" "[n]" ns] by simp

lemma set_level_order_single:
  "set (level_order [n]) = insert n (set (level_order (visible_children n)))"
  using set_level_order[of "[n]"] by simp

lemma below_at_root_Cons_Suc:
  "below_at_root (x # cs) (Suc k # q) = below_at_root cs (k # q)"
  by (cases q) auto

lemma node_at_nonempty: "node_at ns p = Some n \<Longrightarrow> p \<noteq> []"
  by (cases p) auto

lemma level_order_reach:
  "n \<in> set (level_order ns) \<longleftrightarrow> (\<exists>p. node_at ns p = Some n \<and> \<not> below_at_root ns p)"
proof (induction ns arbitrary: n rule: applyImportant.induct)
  case 1
  then show ?case by simp
next
  case (2 s cs ast)
  let ?R = "RuleNode (Rule s cs)"
  have mem: "n \<in> set (level_order (?R # ast)) \<longleftrightarrow>
      n = ?R \<or> (s \<noteq> ''@at-root'' \<and> n \<in> set (level_order cs)) \<or> n \<in> set (level_order ast)"
    by (auto simp: set_level_order_Cons[of ?R ast] set_level_order_single)
  show ?case
  proof
    assume "n \<in> set (level_order (?R # ast))"
    with mem consider "n = ?R" | "s \<noteq> ''@at-root''" "n \<in> set (level_order cs)"
      | "n \<in> set (level_order ast)" by blast
    then show "\<exists>p. node_at (?R # ast) p = Some n \<and> \<not> below_at_root (?R # ast) p"
    proof cases
      case 1
      then have "node_at (?R # ast) [0] = Some n \<and> \<not> below_at_root (?R # ast) [0]" by simp
      then show ?thesis by blast
    next
      case 2
      with "2.IH"(1) obtain p where p: "node_at cs p = Some n" "\<not> below_at_root cs p" by blast
      from node_at_nonempty[OF p(1)] obtain j q where "p = j # q" by (cases p) auto
      with p 2(1) have "node_at (?R # ast) (0 # p) = Some n \<and> \<not> below_at_root (?R # ast) (0 # p)"
        by simp
      then show ?thesis by blast
    next
      case 3
      with "2.IH"(2) obtain p where p: "node_at ast p = Some n" "\<not> below_at_root ast p" by blast
      from node_at_nonempty[OF p(1)] obtain j q where "p = j # q" by (cases p) auto
      with p have "node_at (?R # ast) (Suc j # q) = Some n \<and>
          \<not> below_at_root (?R # ast) (Suc j # q)"
        by (simp add: node_at_Cons_Suc below_at_root_Cons_Suc)
      then show ?thesis by blast
    qed
  next
    assume "\<exists>p. node_at (?R # ast) p = Some n \<and> \<not> below_at_root (?R # ast) p"
    then obtain p where p: "node_at (?R # ast) p = Some n" "\<not> below_at_root (?R # ast) p"
      by blast
    from node_at_nonempty[OF p(1)] obtain i q where pq: "p = i # q" by (cases p) auto
    show "n \<in> set (level_order (?R # ast))"
    proof (cases i)
      case 0
      show ?thesis
      proof (cases q)
        case Nil
        with p pq 0 mem show ?thesis by simp
      next
        case (Cons j q')
        with p pq 0 have "s \<noteq> ''@at-root''" "node_at cs q = Some n" "\<not> below_at_root cs q"
          by auto
        with "2.IH"(1) mem show ?thesis by blast
      qed
    next
      case (Suc k)
      with p pq have "node_at ast (k # q) = Some n" "\<not> below_at_root ast (k # q)"
        by (simp_all add: node_at_Cons_Suc below_at_root_Cons_Suc)
      with "2.IH"(2) mem show ?thesis by blast
    qed
  qed
next
  case (3 a b c ast)
  let ?D = "Declaration a b c"
  have mem: "n \<in> set (level_order (?D # ast)) \<longleftrightarrow> n = ?D \<or> n \<in> set (level_order ast)"
    by (auto simp: set_level_order_Cons[of ?D ast] set_level_order_single)
  show ?case
  proof
    assume "n \<in> set (level_order (?D # ast))"
    with mem consider "n = ?D" | "n \<in> set (level_order ast)" by blast
    then show "\<exists>p. node_at (?D # ast) p = Some n \<and> \<not> below_at_root (?D # ast) p"
    proof cases
      case 1
      then have "node_at (?D # ast) [0] = Some n \<and> \<not> below_at_root (?D # ast) [0]" by simp
      then show ?thesis by blast
    next
      case 2
      with "3.IH" obtain p where p: "node_at ast p = Some n" "\<not> below_at_root ast p" by blast
      from node_at_nonempty[OF p(1)] obtain j q where "p = j # q" by (cases p) auto
      with p have "node_at (?D # ast) (Suc j # q) = Some n \<and>
          \<not> below_at_root (?D # ast) (Suc j # q)"
        by (simp add: node_at_Cons_Suc below_at_root_Cons_Suc)
      then show ?thesis by blast
    qed
  next
    assume "\<exists>p. node_at (?D # ast) p = Some n \<and> \<not> below_at_root (?D # ast) p"
    then obtain p where p: "node_at (?D # ast) p = Some n" "\<not> below_at_root (?D # ast) p"
      by blast
    from node_at_nonempty[OF p(1)] obtain i q where pq: "p = i # q" by (cases p) auto
    show "n \<in> set (level_order (?D # ast))"
    proof (cases i)
      case 0
      show ?thesis
      proof (cases q)
        case Nil
        with p pq 0 mem show ?thesis by simp
      next
        case (Cons j q')
        with p pq 0 show ?thesis by simp
      qed
    next
      case (Suc k)
      with p pq have "node_at ast (k # q) = Some n" "\<not> below_at_root ast (k # q)"
        by (simp_all add: node_at_Cons_Suc below_at_root_Cons_Suc)
      with "3.IH" mem show ?thesis by blast
    qed
  qed
qed

text \<open>
  C3, as amended. The extraction visits the forest in breadth-first order and stops at
  the first declaration of \<^verbatim>\<open>--tw-sort\<close> whose value is in the table, wherever in the
  forest it stands outside \<^verbatim>\<open>@at-root\<close>: with \<open>pre\<close> the nodes visited before it and
  \<open>post\<close> the nodes that would come after it, the key counts the table indices of the
  declarations of \<open>pre\<close> and, once more, the index of the override's value. The nodes of
  \<open>post\<close> do not count; the declarations of \<open>pre\<close> do. The key is the single index of the
  override, counted once, when no declaration of \<open>pre\<close> has its property in the table,
  and only then.
  Every forest that holds such a declaration at a path that does not pass through a rule
  \<^verbatim>\<open>@at-root\<close> is split in this way.
\<close>

theorem getPropertySort_override:
  "(level_order forest = pre @ Declaration ''--tw-sort'' v i # post \<and>
    indexOf order v \<noteq> - 1 \<and>
    list_all (\<lambda>n. \<not> sort_override order n) pre \<longrightarrow>
      getPropertySort order forest =
        key_of_indices (table_indices order pre @ [indexOf order v]) \<and>
      (table_indices order pre = [] \<longleftrightarrow>
         getPropertySort order forest = ([indexOf order v], [1]))) \<and>
   (node_at forest p = Some n \<and> \<not> below_at_root forest p \<and> sort_override order n \<longrightarrow>
      (\<exists>pre' v' i' post'.
         level_order forest = pre' @ Declaration ''--tw-sort'' v' i' # post' \<and>
         indexOf order v' \<noteq> - 1 \<and>
         list_all (\<lambda>n. \<not> sort_override order n) pre'))"
proof (intro conjI impI)
  assume a: "level_order forest = pre @ Declaration ''--tw-sort'' v i # post \<and>
    indexOf order v \<noteq> - 1 \<and> list_all (\<lambda>n. \<not> sort_override order n) pre"
  then show k: "getPropertySort order forest =
      key_of_indices (table_indices order pre @ [indexOf order v])"
    by (simp add: getPropertySort_key counted_until_override)
  show "table_indices order pre = [] \<longleftrightarrow>
      getPropertySort order forest = ([indexOf order v], [1])"
    unfolding k by (simp add: key_of_indices_single)
next
  assume "node_at forest p = Some n \<and> \<not> below_at_root forest p \<and> sort_override order n"
  then have "n \<in> set (level_order forest) \<and> sort_override order n"
    using level_order_reach[of n forest] by blast
  then show "\<exists>pre' v' i' post'.
         level_order forest = pre' @ Declaration ''--tw-sort'' v' i' # post' \<and>
         indexOf order v' \<noteq> - 1 \<and>
         list_all (\<lambda>n. \<not> sort_override order n) pre'"
    using first_override[of n "level_order forest" order] by blast
qed

theorem getPropertySort_override_witness:
  "level_order
     [RuleNode (Rule ''&:hover''
        [Declaration ''--tw-sort'' ''padding'' False, Declaration ''padding'' ''0'' False]),
      Declaration ''display'' ''flex'' False,
      RuleNode (Rule ''@at-root'' [Declaration ''padding'' ''1px'' False])] =
     [RuleNode (Rule ''&:hover''
        [Declaration ''--tw-sort'' ''padding'' False, Declaration ''padding'' ''0'' False]),
      Declaration ''display'' ''flex'' False,
      RuleNode (Rule ''@at-root'' [Declaration ''padding'' ''1px'' False])] @
     Declaration ''--tw-sort'' ''padding'' False # [Declaration ''padding'' ''0'' False] \<and>
   indexOf [''padding'', ''display''] ''padding'' = 0 \<and>
   node_at
     [RuleNode (Rule ''&:hover''
        [Declaration ''--tw-sort'' ''padding'' False, Declaration ''padding'' ''0'' False]),
      Declaration ''display'' ''flex'' False,
      RuleNode (Rule ''@at-root'' [Declaration ''padding'' ''1px'' False])] [0, 0] =
     Some (Declaration ''--tw-sort'' ''padding'' False) \<and>
   \<not> below_at_root
     [RuleNode (Rule ''&:hover''
        [Declaration ''--tw-sort'' ''padding'' False, Declaration ''padding'' ''0'' False]),
      Declaration ''display'' ''flex'' False,
      RuleNode (Rule ''@at-root'' [Declaration ''padding'' ''1px'' False])] [0, 0] \<and>
   sort_override [''padding'', ''display''] (Declaration ''--tw-sort'' ''padding'' False) \<and>
   table_indices [''padding'', ''display'']
     [RuleNode (Rule ''&:hover''
        [Declaration ''--tw-sort'' ''padding'' False, Declaration ''padding'' ''0'' False]),
      Declaration ''display'' ''flex'' False,
      RuleNode (Rule ''@at-root'' [Declaration ''padding'' ''1px'' False])] = [1] \<and>
   getPropertySort [''padding'', ''display'']
     [RuleNode (Rule ''&:hover''
        [Declaration ''--tw-sort'' ''padding'' False, Declaration ''padding'' ''0'' False]),
      Declaration ''display'' ''flex'' False,
      RuleNode (Rule ''@at-root'' [Declaration ''padding'' ''1px'' False])] = ([0, 1], [1, 1]) \<and>
   level_order
     [Declaration ''color'' ''red'' False,
      RuleNode (Rule ''&:hover''
        [Declaration ''--tw-sort'' ''display'' False, Declaration ''padding'' ''0'' False])] =
     [Declaration ''color'' ''red'' False,
      RuleNode (Rule ''&:hover''
        [Declaration ''--tw-sort'' ''display'' False, Declaration ''padding'' ''0'' False])] @
     Declaration ''--tw-sort'' ''display'' False # [Declaration ''padding'' ''0'' False] \<and>
   getPropertySort [''padding'', ''display'']
     [Declaration ''color'' ''red'' False,
      RuleNode (Rule ''&:hover''
        [Declaration ''--tw-sort'' ''display'' False, Declaration ''padding'' ''0'' False])] =
     ([1], [1])"
proof -
  have l1: "level_order
     [RuleNode (Rule ''&:hover''
        [Declaration ''--tw-sort'' ''padding'' False, Declaration ''padding'' ''0'' False]),
      Declaration ''display'' ''flex'' False,
      RuleNode (Rule ''@at-root'' [Declaration ''padding'' ''1px'' False])] =
     [RuleNode (Rule ''&:hover''
        [Declaration ''--tw-sort'' ''padding'' False, Declaration ''padding'' ''0'' False]),
      Declaration ''display'' ''flex'' False,
      RuleNode (Rule ''@at-root'' [Declaration ''padding'' ''1px'' False])] @
     Declaration ''--tw-sort'' ''padding'' False # [Declaration ''padding'' ''0'' False]"
    by (simp add: level_order_nonempty)
  have l2: "level_order
     [Declaration ''color'' ''red'' False,
      RuleNode (Rule ''&:hover''
        [Declaration ''--tw-sort'' ''display'' False, Declaration ''padding'' ''0'' False])] =
     [Declaration ''color'' ''red'' False,
      RuleNode (Rule ''&:hover''
        [Declaration ''--tw-sort'' ''display'' False, Declaration ''padding'' ''0'' False])] @
     Declaration ''--tw-sort'' ''display'' False # [Declaration ''padding'' ''0'' False]"
    by (simp add: level_order_nonempty)
  from getPropertySort_override
      [where forest = "[RuleNode (Rule ''&:hover''
          [Declaration ''--tw-sort'' ''padding'' False, Declaration ''padding'' ''0'' False]),
        Declaration ''display'' ''flex'' False,
        RuleNode (Rule ''@at-root'' [Declaration ''padding'' ''1px'' False])]"
       and pre = "[RuleNode (Rule ''&:hover''
          [Declaration ''--tw-sort'' ''padding'' False, Declaration ''padding'' ''0'' False]),
        Declaration ''display'' ''flex'' False,
        RuleNode (Rule ''@at-root'' [Declaration ''padding'' ''1px'' False])]"
       and v = "''padding''" and i = False and post = "[Declaration ''padding'' ''0'' False]"
       and order = "[''padding'', ''display'']"
       and n = "Declaration ''--tw-sort'' ''padding'' False" and p = "[0, 0]"]
    getPropertySort_override
      [where forest = "[Declaration ''color'' ''red'' False,
        RuleNode (Rule ''&:hover''
          [Declaration ''--tw-sort'' ''display'' False, Declaration ''padding'' ''0'' False])]"
       and pre = "[Declaration ''color'' ''red'' False,
        RuleNode (Rule ''&:hover''
          [Declaration ''--tw-sort'' ''display'' False, Declaration ''padding'' ''0'' False])]"
       and v = "''display''" and i = False and post = "[Declaration ''padding'' ''0'' False]"
       and order = "[''padding'', ''display'']"
       and n = "Declaration ''--tw-sort'' ''display'' False" and p = "[1, 0]"]
    l1 l2
  show ?thesis
    by (simp add: table_indices_def key_of_indices_def Let_def)
qed

text \<open>
  The claim as first stated made the key the single index whatever else the forest
  holds. Here \<^verbatim>\<open>display\<close> stands before the override, and the key holds both indices.
\<close>

theorem getPropertySort_override_after_declaration:
  "getPropertySort [''padding'', ''display'']
     [Declaration ''display'' ''flex'' False, Declaration ''--tw-sort'' ''padding'' False] =
     ([0, 1], [1, 1])"
  by (simp add: getPropertySort_def count_index_def)

section \<open>Compiling one candidate: properties\<close>

lemma try_utilities_skip:
  "list_all (\<lambda>w. ukind w \<noteq> kind c \<or> compileFn w c = Undefined) ws \<Longrightarrow>
   try_utilities c (ws @ rest) = try_utilities c rest"
  by (induction ws) auto

lemma try_utilities_decides:
  assumes "list_all (\<lambda>w. ukind w \<noteq> kind c \<or> compileFn w c = Undefined) later"
    and "ukind u = kind c"
  shows "try_utilities c (rev (earlier @ u # later)) =
     (case compileFn u c of
        Null \<Rightarrow> Null
      | Nodes ns \<Rightarrow> Nodes ns
      | Undefined \<Rightarrow> try_utilities c (rev earlier))"
proof -
  from assms(1) have "list_all (\<lambda>w. ukind w \<noteq> kind c \<or> compileFn w c = Undefined) (rev later)"
    by (simp add: list_all_iff)
  from try_utilities_skip[OF this, of "u # rev earlier"] assms(2) show ?thesis
    by simp
qed

text \<open>
  C5, as amended. A candidate whose base utility resolution answers \<^verbatim>\<open>null\<close> or
  \<^verbatim>\<open>undefined\<close> does not compile. Among the utilities registered for the root, the
  last one of the candidate's kind that does not answer \<^verbatim>\<open>undefined\<close> decides: when it
  answers \<^verbatim>\<open>null\<close> the candidate is invalid; when it answers \<^verbatim>\<open>undefined\<close> the
  search goes on with the utilities registered before it; when it answers a list of
  nodes, also the empty one, that list is the resolution, and the candidate compiles to
  the rule of these nodes with its variants applied (it fails only if a variant does,
  and raises only if a variant does).
\<close>

theorem compileAstNodes_needs_nodes:
  "parseCandidate designSystem raw = Some c \<Longrightarrow>
   (compileBaseUtility imp c designSystem = Inr Null \<or>
    compileBaseUtility imp c designSystem = Inr Undefined \<longrightarrow>
      compileAstNodes imp raw designSystem = Inr None) \<and>
   (kind c \<noteq> ''arbitrary'' \<and>
    utilities_get designSystem (root c) = Some (earlier @ u # later) \<and>
    list_all (\<lambda>w. ukind w \<noteq> kind c \<or> compileFn w c = Undefined) later \<and>
    ukind u = kind c \<longrightarrow>
      (compileFn u c = Null \<longrightarrow>
         compileBaseUtility imp c designSystem = Inr Null \<and>
         compileAstNodes imp raw designSystem = Inr None) \<and>
      (compileFn u c = Undefined \<longrightarrow>
         compileBaseUtility imp c designSystem = Inr (try_utilities c (rev earlier))) \<and>
      (compileFn u c = Nodes ns \<longrightarrow>
         compileBaseUtility imp c designSystem = Inr (Nodes ns) \<and>
         compileAstNodes imp raw designSystem =
           map_sum id (map_option (\<lambda>node. (node, getPropertySort (GLOBAL_PROPERTY_ORDER imp) ns)))
             (apply_variants
                (Rule (CHR ''.'' # escape imp raw) (if important c then applyImportant ns else ns))
                (variants c) (variants_registry designSystem))))"
proof (intro conjI impI)
  assume p: "parseCandidate designSystem raw = Some c"
  {
    assume "compileBaseUtility imp c designSystem = Inr Null \<or>
      compileBaseUtility imp c designSystem = Inr Undefined"
    with p show "compileAstNodes imp raw designSystem = Inr None"
      by (auto simp: compileAstNodes_def)
  }
  assume h: "kind c \<noteq> ''arbitrary'' \<and>
    utilities_get designSystem (root c) = Some (earlier @ u # later) \<and>
    list_all (\<lambda>w. ukind w \<noteq> kind c \<or> compileFn w c = Undefined) later \<and>
    ukind u = kind c"
  then have base: "compileBaseUtility imp c designSystem =
     Inr (case compileFn u c of
            Null \<Rightarrow> Null
          | Nodes ns \<Rightarrow> Nodes ns
          | Undefined \<Rightarrow> try_utilities c (rev earlier))"
    using try_utilities_decides[of c later u earlier]
    by (simp add: compileBaseUtility_def)
  {
    assume "compileFn u c = Null"
    with base show "compileBaseUtility imp c designSystem = Inr Null" by simp
    with p show "compileAstNodes imp raw designSystem = Inr None"
      by (simp add: compileAstNodes_def)
  }
  {
    assume "compileFn u c = Undefined"
    with base show "compileBaseUtility imp c designSystem = Inr (try_utilities c (rev earlier))"
      by simp
  }
  {
    assume "compileFn u c = Nodes ns"
    with base show b: "compileBaseUtility imp c designSystem = Inr (Nodes ns)" by simp
    with p show "compileAstNodes imp raw designSystem =
           map_sum id (map_option (\<lambda>node. (node, getPropertySort (GLOBAL_PROPERTY_ORDER imp) ns)))
             (apply_variants
                (Rule (CHR ''.'' # escape imp raw) (if important c then applyImportant ns else ns))
                (variants c) (variants_registry designSystem))"
      by (simp add: compileAstNodes_def Let_def split: option.splits sum.splits)
  }
qed


theorem compileAstNodes_needs_nodes_witness:
  "parseCandidate designSystem0 ''ghost'' = Some (candidate0 4 ''static'' ''ghost'' []) \<and>
   compileBaseUtility imports0 (candidate0 4 ''static'' ''ghost'' []) designSystem0 = Inr Null \<and>
   compileAstNodes imports0 ''ghost'' designSystem0 = Inr None \<and>
   parseCandidate designSystem0 ''refused'' = Some (candidate0 9 ''static'' ''refused'' []) \<and>
   compileBaseUtility imports0 (candidate0 9 ''static'' ''refused'' []) designSystem0 = Inr Null \<and>
   compileAstNodes imports0 ''refused'' designSystem0 = Inr None \<and>
   parseCandidate designSystem0 ''fallback'' = Some (candidate0 8 ''static'' ''fallback'' []) \<and>
   compileBaseUtility imports0 (candidate0 8 ''static'' ''fallback'' []) designSystem0 =
     Inr (Nodes [Declaration ''display'' ''block'' False]) \<and>
   parseCandidate designSystem0 ''flex'' = Some (candidate0 1 ''static'' ''flex'' []) \<and>
   compileAstNodes imports0 ''flex'' designSystem0 =
     Inr (Some (Rule ''.flex'' [Declaration ''display'' ''flex'' False], ([1], [1])))"
  using compileAstNodes_needs_nodes
    [where designSystem = designSystem0 and raw = "''ghost''"
       and c = "candidate0 4 ''static'' ''ghost'' []" and imp = imports0]
    compileAstNodes_needs_nodes
    [where designSystem = designSystem0 and raw = "''refused''"
       and c = "candidate0 9 ''static'' ''refused'' []" and imp = imports0
       and earlier = "[\<lparr>ukind = ''static'', compileFn = (\<lambda>c. Nodes [decl ''display'' ''block''])\<rparr>]"
       and u = "\<lparr>ukind = ''static'', compileFn = (\<lambda>c. Null)\<rparr>" and later = "[]"]
    compileAstNodes_needs_nodes
    [where designSystem = designSystem0 and raw = "''fallback''"
       and c = "candidate0 8 ''static'' ''fallback'' []" and imp = imports0
       and earlier = "[\<lparr>ukind = ''static'', compileFn = (\<lambda>c. Nodes [decl ''display'' ''block''])\<rparr>]"
       and u = "\<lparr>ukind = ''static'', compileFn = (\<lambda>c. Undefined)\<rparr>" and later = "[]"]
    compileAstNodes_needs_nodes
    [where designSystem = designSystem0 and raw = "''flex''"
       and c = "candidate0 1 ''static'' ''flex'' []" and imp = imports0 and earlier = "[]"
       and u = "\<lparr>ukind = ''static'', compileFn = (\<lambda>c. Nodes [decl ''display'' ''flex''])\<rparr>"
       and later = "[]" and ns = "[Declaration ''display'' ''flex'' False]"]
  by (simp add: designSystem0_def imports0_def candidate0_def compileBaseUtility_def decl_def
      getPropertySort_def count_index_def)

text \<open>
  The claim as first stated made a candidate fail whenever its resolution produces no
  nodes, and a utility that answers the empty list produce nothing. The utility of
  \<^verbatim>\<open>blank\<close> answers the empty list, and the candidate compiles to a rule without
  children.
\<close>

theorem compileAstNodes_empty_list_compiles:
  "compileBaseUtility imports0 (candidate0 5 ''static'' ''blank'' []) designSystem0 = Inr (Nodes []) \<and>
   compileAstNodes imports0 ''blank'' designSystem0 = Inr (Some (Rule ''.blank'' [], ([], [])))"
  by (simp add: designSystem0_def imports0_def candidate0_def compileBaseUtility_def
      compileAstNodes_def getPropertySort_def)

section \<open>Sorting with a comparator: properties\<close>

lemma property_offset_0: "property_offset a z 0 = Some 0"
  by (subst property_offset.simps) simp


lemma insert_sorted_total:
  "(\<And>a b. cmp a b = Some (f a b)) \<Longrightarrow> insert_sorted cmp x ys = Some (insort_by f x ys)"
  by (induction ys) auto

lemma array_sort_total:
  "(\<And>a b. cmp a b = Some (f a b)) \<Longrightarrow> array_sort cmp xs = Some (sort_by f xs)"
  by (induction xs) (auto simp: insert_sorted_total)

lemma mset_insort_by: "mset (insort_by f x ys) = add_mset x (mset ys)"
  by (induction ys) auto

lemma mset_sort_by: "mset (sort_by f xs) = mset xs"
  by (induction xs) (auto simp: mset_insort_by)

lemma set_insort_by: "set (insort_by f x ys) = insert x (set ys)"
  by (induction ys) auto

lemma set_sort_by: "set (sort_by f xs) = set xs"
  by (induction xs) (auto simp: set_insort_by)

lemma length_sort_by: "length (sort_by f xs) = length xs"
  using mset_sort_by[of f xs] by (rule mset_eq_length)

lemma sorted_insort_by:
  assumes "consistent_on S f" "x \<in> S" "set ys \<subseteq> S" "sorted_wrt (\<lambda>a b. f a b \<le> 0) ys"
  shows "sorted_wrt (\<lambda>a b. f a b \<le> 0) (insort_by f x ys)"
  using assms(3,4)
proof (induction ys)
  case Nil
  then show ?case by simp
next
  case (Cons y ys)
  show ?case
  proof (cases "f x y \<le> 0")
    case True
    have "f x z \<le> 0" if "z \<in> set ys" for z
    proof -
      from Cons.prems that have "f y z \<le> 0" "z \<in> S" "y \<in> S" by auto
      with assms(1,2) True show ?thesis
        unfolding consistent_on_def by blast
    qed
    with True Cons.prems show ?thesis by auto
  next
    case False
    from Cons.prems have y: "y \<in> S" by simp
    from False have "0 < f x y" by simp
    with assms(1,2) y have "f y x \<le> 0"
      unfolding consistent_on_def by blast
    with False Cons show ?thesis
      by (auto simp: set_insort_by)
  qed
qed

lemma sorted_sort_by:
  "consistent_on S f \<Longrightarrow> set xs \<subseteq> S \<Longrightarrow> sorted_wrt (\<lambda>a b. f a b \<le> 0) (sort_by f xs)"
proof (induction xs)
  case Nil
  then show ?case by simp
next
  case (Cons x xs)
  then have "sorted_wrt (\<lambda>a b. f a b \<le> 0) (sort_by f xs)" "x \<in> S" "set (sort_by f xs) \<subseteq> S"
    by (simp_all add: set_sort_by)
  with Cons.prems(1) show ?case
    by (simp add: sorted_insort_by[where S = S])
qed



lemma sorted_nth_le_iff:
  assumes "consistent_on S f" "a \<in> S"
  shows "set xs \<subseteq> S \<Longrightarrow> sorted_wrt (\<lambda>a b. f a b \<le> 0) xs \<Longrightarrow> i < length xs \<Longrightarrow>
    f (xs ! i) a \<le> 0 \<longleftrightarrow> i < length (filter (\<lambda>x. f x a \<le> 0) xs)"
proof (induction xs arbitrary: i)
  case Nil
  then show ?case by simp
next
  case (Cons x xs)
  show ?case
  proof (cases "f x a \<le> 0")
    case True
    show ?thesis
    proof (cases i)
      case 0
      with True show ?thesis by simp
    next
      case (Suc j)
      with Cons.prems have "set xs \<subseteq> S" "sorted_wrt (\<lambda>a b. f a b \<le> 0) xs" "j < length xs"
        by simp_all
      from Cons.IH[OF this] True Suc show ?thesis by simp
    qed
  next
    case False
    have no: "\<not> f y a \<le> 0" if "y \<in> set (x # xs)" for y
    proof (cases "y = x")
      case True
      with False show ?thesis by simp
    next
      case ne: False
      show ?thesis
      proof
        assume "f y a \<le> 0"
        moreover from Cons.prems that ne have "f x y \<le> 0" "x \<in> S" "y \<in> S" by auto
        ultimately have "f x a \<le> 0"
          using assms unfolding consistent_on_def by blast
        with False show False by simp
      qed
    qed
    then have "filter (\<lambda>x. f x a \<le> 0) (x # xs) = []"
      by (simp only: filter_empty_conv) blast
    moreover from Cons.prems(3) have "(x # xs) ! i \<in> set (x # xs)"
      by (rule nth_mem)
    with no have "\<not> f ((x # xs) ! i) a \<le> 0" by blast
    ultimately show ?thesis by simp
  qed
qed

lemma sorted_permutations_tie:
  assumes c: "consistent_on S f" and sx: "set xs \<subseteq> S"
    and "sorted_wrt (\<lambda>a b. f a b \<le> 0) xs" "sorted_wrt (\<lambda>a b. f a b \<le> 0) ys"
    and m: "mset xs = mset ys"
  shows "list_all2 (tie f) xs ys"
proof -
  from m have len: "length xs = length ys" by (rule mset_eq_length)
  from m sx have sy: "set ys \<subseteq> S" using mset_eq_setD by blast
  have cnt: "length (filter P xs) = length (filter P ys)" for P
  proof -
    from m have "mset (filter P xs) = mset (filter P ys)" by simp
    then show ?thesis by (rule mset_eq_length)
  qed
  have refl: "f a a \<le> 0" if "a \<in> S" for a
  proof (rule ccontr)
    assume "\<not> f a a \<le> 0"
    then have "0 < f a a" by simp
    with c that have "f a a \<le> 0" unfolding consistent_on_def by blast
    with \<open>\<not> f a a \<le> 0\<close> show False by simp
  qed
  have "tie f (xs ! i) (ys ! i)" if i: "i < length xs" for i
  proof -
    from i len sx sy have xi: "xs ! i \<in> S" and yi: "ys ! i \<in> S" by auto
    have "f (xs ! i) (ys ! i) \<le> 0"
    proof -
      from i len have "f (ys ! i) (ys ! i) \<le> 0 \<longleftrightarrow> i < length (filter (\<lambda>x. f x (ys ! i) \<le> 0) ys)"
        using sorted_nth_le_iff[OF c yi sy assms(4), of i] by simp
      with refl[OF yi] have "i < length (filter (\<lambda>x. f x (ys ! i) \<le> 0) ys)" by simp
      with cnt[of "\<lambda>x. f x (ys ! i) \<le> 0"]
      have "i < length (filter (\<lambda>x. f x (ys ! i) \<le> 0) xs)" by simp
      with sorted_nth_le_iff[OF c yi sx assms(3) i] show ?thesis by simp
    qed
    moreover have "f (ys ! i) (xs ! i) \<le> 0"
    proof -
      have "f (xs ! i) (xs ! i) \<le> 0 \<longleftrightarrow> i < length (filter (\<lambda>x. f x (xs ! i) \<le> 0) xs)"
        using sorted_nth_le_iff[OF c xi sx assms(3) i] by simp
      with refl[OF xi] have "i < length (filter (\<lambda>x. f x (xs ! i) \<le> 0) xs)" by simp
      with cnt[of "\<lambda>x. f x (xs ! i) \<le> 0"]
      have "i < length (filter (\<lambda>x. f x (xs ! i) \<le> 0) ys)" by simp
      moreover from i len have "i < length ys" by simp
      ultimately show ?thesis
        using sorted_nth_le_iff[OF c xi sy assms(4), of i] by simp
    qed
    ultimately show ?thesis by (simp add: tie_def)
  qed
  with len show ?thesis by (simp add: list_all2_conv_all_nth)
qed

section \<open>The comparator: properties\<close>


















section \<open>Compiling a batch: properties\<close>

subsection \<open>First occurrences\<close>


lemma set_first_occurrences [simp]: "set (first_occurrences xs) = set xs"
  by (simp add: first_occurrences_def)

lemma distinct_first_occurrences [simp]: "distinct (first_occurrences xs)"
  by (simp add: first_occurrences_def)




subsection \<open>The map of candidates\<close>






subsection \<open>Raising\<close>







subsection \<open>The second loop\<close>










section \<open>Variant bit positions\<close>

lemma indexOf_ge: "- 1 \<le> indexOf xs x"
  by (induction xs) (auto simp: Let_def)

lemma indexOf_absent: "x \<notin> set xs \<Longrightarrow> indexOf xs x = - 1"
  by (induction xs) (auto simp: Let_def)

lemma indexOf_present:
  "x \<in> set xs \<Longrightarrow>
   0 \<le> indexOf xs x \<and> indexOf xs x < int (length xs) \<and> xs ! nat (indexOf xs x) = x"
proof (induction xs)
  case Nil
  then show ?case by simp
next
  case (Cons y xs)
  show ?case
  proof (cases "y = x")
    case True
    then show ?thesis by simp
  next
    case False
    with Cons.prems have "x \<in> set xs" by simp
    from Cons.IH[OF this] False show ?thesis
      by (simp add: Let_def nat_add_distrib)
  qed
qed

lemma fold_or_nonneg:
  "0 \<le> (acc :: int) \<Longrightarrow> (\<And>v. v \<in> set vs \<Longrightarrow> 0 \<le> g v) \<Longrightarrow>
   0 \<le> fold (\<lambda>v order. order OR g v) vs acc"
  by (induction vs arbitrary: acc) simp_all

text \<open>
  C10. When every variant of a candidate occurs in the list that
  \<^verbatim>\<open>getUsedVariants()\<close> returns, the sort of that list returns, and each lookup of a
  variant of the candidate in the sorted list yields an index that is not negative and
  addresses that variant; the shift by it is the left shift \<open>2 ^ index\<close>, never the shift
  by a negative amount, and the variant order computed from these bits is not negative.
\<close>

theorem variant_lookup_nonnegative:
  "set (variants c) \<subseteq> set (getUsedVariants designSystem) \<Longrightarrow>
   (\<exists>sorted_variants.
      array_sort (\<lambda>a z. Some (variant_compare (variants_registry designSystem) a z))
        (getUsedVariants designSystem) = Some sorted_variants \<and>
      (\<forall>v\<in>set (variants c).
         0 \<le> indexOf sorted_variants v \<and>
         indexOf sorted_variants v < int (length sorted_variants) \<and>
         sorted_variants ! nat (indexOf sorted_variants v) = v \<and>
         bigint_shift_left 1 (indexOf sorted_variants v) = 2 ^ nat (indexOf sorted_variants v)) \<and>
      0 \<le> variantOrder sorted_variants (variants c))"
proof -
  assume sub: "set (variants c) \<subseteq> set (getUsedVariants designSystem)"
  let ?vs = "sort_by (variant_compare (variants_registry designSystem)) (getUsedVariants designSystem)"
  have sorted: "array_sort (\<lambda>a z. Some (variant_compare (variants_registry designSystem) a z))
        (getUsedVariants designSystem) = Some ?vs"
    by (simp add: array_sort_total)
  have each: "0 \<le> indexOf ?vs v \<and> indexOf ?vs v < int (length ?vs) \<and>
         ?vs ! nat (indexOf ?vs v) = v \<and>
         bigint_shift_left 1 (indexOf ?vs v) = 2 ^ nat (indexOf ?vs v)"
    if "v \<in> set (variants c)" for v
  proof -
    from that sub have "v \<in> set ?vs" by (auto simp: set_sort_by)
    from indexOf_present[OF this] show ?thesis
      by (simp add: bigint_shift_left_def push_bit_eq_mult)
  qed
  have "0 \<le> variantOrder ?vs (variants c)"
    unfolding variantOrder_def
  proof (rule fold_or_nonneg)
    show "(0::int) \<le> 0" by simp
  next
    fix v assume "v \<in> set (variants c)"
    from each[OF this] show "0 \<le> bigint_shift_left 1 (indexOf ?vs v)" by simp
  qed
  with sorted each show ?thesis by blast
qed

theorem variant_lookup_nonnegative_witness:
  "set (variants (candidate0 6 ''static'' ''flex'' [Compound ''group'' (Static ''hover'')])) \<subseteq>
     set (getUsedVariants designSystem0) \<and>
   array_sort (\<lambda>a z. Some (variant_compare (variants_registry designSystem0) a z))
        (getUsedVariants designSystem0) =
     Some [Static ''hover'', Compound ''group'' (Static ''hover'')] \<and>
   indexOf [Static ''hover'', Compound ''group'' (Static ''hover'')]
     (Compound ''group'' (Static ''hover'')) = 1 \<and>
   variantOrder [Static ''hover'', Compound ''group'' (Static ''hover'')]
     (variants (candidate0 6 ''static'' ''flex'' [Compound ''group'' (Static ''hover'')])) = 2"
  using variant_lookup_nonnegative
    [of "candidate0 6 ''static'' ''flex'' [Compound ''group'' (Static ''hover'')]" designSystem0]
  by (simp add: designSystem0_def candidate0_def registry0_def variantOrder_def
      bigint_shift_left_def)

section \<open>The comparator on variant orders and property indices\<close>

text \<open>
  C8. For two entries whose variant orders differ, the comparator returns, its result is
  not zero, and it is negative exactly when the first entry has the smaller variant
  order; sorting the two puts the entry with the smaller variant order first. The
  variant orders are unbounded integers and are compared as such.
\<close>

theorem sort_comparator_variants:
  "variants_order a \<noteq> variants_order z \<Longrightarrow>
   (\<exists>d. sort_comparator imp a z = Some d \<and> d \<noteq> 0 \<and>
        (d < 0 \<longleftrightarrow> variants_order a < variants_order z)) \<and>
   array_sort (\<lambda>x y. sort_comparator imp (snd x) (snd y)) [(n, a), (m, z)] =
     Some (if variants_order a < variants_order z then [(n, a), (m, z)] else [(m, z), (n, a)])"
  by (auto simp: sort_comparator_def Number_of_bigint_def Let_def sgn_if)

theorem sort_comparator_variants_witness:
  "variants_order \<lparr>properties = ([0], [1]), variants_order = 1180591620717411303425, candidate = ''a''\<rparr> \<noteq>
   variants_order \<lparr>properties = ([1], [1]), variants_order = 1180591620717411303424, candidate = ''b''\<rparr> \<and>
   sort_comparator imports0
     \<lparr>properties = ([0], [1]), variants_order = 1180591620717411303425, candidate = ''a''\<rparr>
     \<lparr>properties = ([1], [1]), variants_order = 1180591620717411303424, candidate = ''b''\<rparr> = Some 1 \<and>
   array_sort (\<lambda>x y. sort_comparator imports0 (snd x) (snd y))
     [(Rule ''.a'' [], \<lparr>properties = ([0], [1]), variants_order = 1180591620717411303425, candidate = ''a''\<rparr>),
      (Rule ''.b'' [], \<lparr>properties = ([1], [1]), variants_order = 1180591620717411303424, candidate = ''b''\<rparr>)] =
     Some
     [(Rule ''.b'' [], \<lparr>properties = ([1], [1]), variants_order = 1180591620717411303424, candidate = ''b''\<rparr>),
      (Rule ''.a'' [], \<lparr>properties = ([0], [1]), variants_order = 1180591620717411303425, candidate = ''a''\<rparr>)]"
  using sort_comparator_variants
    [of "\<lparr>properties = ([0], [1]), variants_order = 1180591620717411303425, candidate = ''a''\<rparr>"
        "\<lparr>properties = ([1], [1]), variants_order = 1180591620717411303424, candidate = ''b''\<rparr>"
        imports0 "Rule ''.a'' []" "Rule ''.b'' []"]
  by (simp add: sort_comparator_def Number_of_bigint_def)

text \<open>
  C2 fails on the code. The loop of lines 80-87 never advances (its guard asks for
  \<open>length < offset\<close> at \<open>offset = 0\<close>), so the comparator reads the property sequences at
  position 0 only. The two entries below have the same variant order and the sequences
  \<open>[1, 2]\<close> and \<open>[1, 3]\<close>, which first differ at position 1, where the first entry has the
  smaller index; the comparator does not see it, falls through to the comparison of the
  texts and puts the second entry first.
\<close>

theorem sort_comparator_stops_at_first_index:
  "sort_comparator imports0
     \<lparr>properties = ([1, 2], [1, 1]), variants_order = 0, candidate = ''zz''\<rparr>
     \<lparr>properties = ([1, 3], [1, 1]), variants_order = 0, candidate = ''a''\<rparr> = Some 1 \<and>
   array_sort (\<lambda>x y. sort_comparator imports0 (snd x) (snd y))
     [(Rule ''.zz'' [], \<lparr>properties = ([1, 2], [1, 1]), variants_order = 0, candidate = ''zz''\<rparr>),
      (Rule ''.a'' [], \<lparr>properties = ([1, 3], [1, 1]), variants_order = 0, candidate = ''a''\<rparr>)] =
     Some
     [(Rule ''.a'' [], \<lparr>properties = ([1, 3], [1, 1]), variants_order = 0, candidate = ''a''\<rparr>),
      (Rule ''.zz'' [], \<lparr>properties = ([1, 2], [1, 1]), variants_order = 0, candidate = ''zz''\<rparr>)]"
  by (simp add: sort_comparator_def property_offset_0 at_index_def imports0_def)

section \<open>Reporting invalid candidates\<close>













section \<open>Independence of the input order\<close>






lemma sort_by_permutation_eq:
  assumes c: "consistent_on UNIV f" and strict: "\<And>a b. tie f a b \<Longrightarrow> a = b"
    and m: "mset xs = mset ys"
  shows "sort_by f xs = sort_by f ys"
proof -
  have "list_all2 (tie f) (sort_by f xs) (sort_by f ys)"
  proof (rule sorted_permutations_tie[OF c])
    show "set (sort_by f xs) \<subseteq> UNIV" by simp
    show "sorted_wrt (\<lambda>a b. f a b \<le> 0) (sort_by f xs)"
      by (rule sorted_sort_by[OF c]) simp
    show "sorted_wrt (\<lambda>a b. f a b \<le> 0) (sort_by f ys)"
      by (rule sorted_sort_by[OF c]) simp
    show "mset (sort_by f xs) = mset (sort_by f ys)"
      by (simp only: mset_sort_by m)
  qed
  then have "list_all2 (=) (sort_by f xs) (sort_by f ys)"
  proof (rule list.rel_mono_strong)
    fix a b assume "tie f a b"
    then show "a = b" by (rule strict)
  qed
  then show ?thesis by (simp only: list_all2_eq)
qed






lemma used_variants_sorted_update:
  "used_variants_sorted (designSystem\<lparr>getUsedVariants := used\<rparr>) =
   sort_by (variant_compare (variants_registry designSystem)) used"
  by (simp add: used_variants_sorted_def)

lemma used_variants_sorted_permutation:
  assumes "mset used = mset (getUsedVariants designSystem)"
    and "consistent_on UNIV (variant_compare (variants_registry designSystem))"
    and "\<And>a z. tie (variant_compare (variants_registry designSystem)) a z \<Longrightarrow> a = z"
  shows "used_variants_sorted (designSystem\<lparr>getUsedVariants := used\<rparr>) =
    used_variants_sorted designSystem"
  unfolding used_variants_sorted_update
  unfolding used_variants_sorted_def
  by (rule sort_by_permutation_eq[OF assms(2,3,1)])






end
